theory Spec2Isabelle
  imports Complex_Main
begin

section \<open>Buffers, pointers and the Function container\<close>

text \<open>
  The numeric routines of the symbolic QR linear solver work on raw buffers handed over
  as pointers. A pointer is modelled as a region (which array it points into) together
  with an offset into that array. The regions are the caller's matrix nonzeros \<open>A\<close>, the
  caller's right-hand side and solution buffer \<open>x\<close>, and the vectors \<open>q\<close>, \<open>r\<close> and \<open>w\<close>
  of the solver memory. The type \<open>'v\<close> stands for the numeric values (C++ \<open>double\<close>).
\<close>

datatype region = RegA | RegX | RegQ | RegR | RegW

type_synonym ptr = "region \<times> nat"

text \<open>
  \<open>std::vector::resize\<close>: keeps the leading entries, pads with value-initialised
  entries, and always yields the requested size.
\<close>

definition resize :: "'a \<Rightarrow> nat \<Rightarrow> 'a list \<Rightarrow> 'a list" where
  "resize d n xs = take n xs @ replicate (n - length xs) d"

text \<open>
  \<open>std::fill_n(p, n, v)\<close> on the start of a vector and \<open>std::copy_n(src, n, dst)\<close> into
  an array at an offset. Writing past the end of the array is undefined behaviour in C++;
  the model keeps the length of the destination and the theorems below state the sizes
  under which no such write happens.
\<close>

definition overwrite :: "nat \<Rightarrow> 'a list \<Rightarrow> 'a list \<Rightarrow> 'a list" where
  "overwrite off vs buf = take (length buf) (take off buf @ vs @ drop (off + length vs) buf)"

definition fill_n :: "'a list \<Rightarrow> nat \<Rightarrow> 'a \<Rightarrow> 'a list" where
  "fill_n buf n v = overwrite 0 (replicate n v) buf"

text \<open>
  Modelled from the spec: the Function container (class \<open>Function\<close> of the core library,
  not among the source files). The spec describes it as a compiled, pure mapping from a
  fixed list of inputs to a fixed list of outputs with known scratch requirements:
  input and output counts, the number of nonzeros of every input and output, and the four
  scratch sizes (argument-pointer slots, result-pointer slots, integer scratch words,
  floating scratch words). \<open>fn_eval\<close> is the mapping itself on nonzero buffers, and
  \<open>fn_work\<close> is what an evaluation leaves behind in its floating scratch.
\<close>

record 'v Function =
  n_in :: nat
  n_out :: nat
  nnz_in :: "nat list"
  nnz_out :: "nat list"
  sz_arg :: nat
  sz_res :: nat
  sz_iw :: nat
  sz_w :: nat
  fn_eval :: "'v list list \<Rightarrow> 'v list list"
  fn_work :: "'v list list \<Rightarrow> 'v list"

section \<open>The memory of the symbolic QR solver\<close>

text \<open>
  \<open>SymbolicQrMemory\<close>: the work vectors \<open>arg\<close>, \<open>res\<close>, \<open>iw\<close>, \<open>w\<close>, the three generated
  Functions, and the storage \<open>q\<close>, \<open>r\<close> of the factors. \<open>nrow\<close> is the row count read from
  the sparsity pattern kept by the base class.
\<close>

record 'v SymbolicQrMemory =
  nrow :: nat
  arg :: "ptr option list"
  res :: "ptr option list"
  iw :: "int list"
  w :: "'v list"
  factorize :: "'v Function"
  solve :: "'v Function"
  solveT :: "'v Function"
  q :: "'v list"
  r :: "'v list"

text \<open>\<open>SymbolicQrMemory::alloc\<close>: grow each work vector to what the Function needs.\<close>

definition SymbolicQrMemory_alloc ::
  "'v::zero Function \<Rightarrow> 'v SymbolicQrMemory \<Rightarrow> 'v SymbolicQrMemory" where
  "SymbolicQrMemory_alloc f m =
     (let m1 = m\<lparr>arg := resize None (max (length (arg m)) (sz_arg f)) (arg m)\<rparr>;
          m2 = m1\<lparr>res := resize None (max (length (res m1)) (sz_res f)) (res m1)\<rparr>;
          m3 = m2\<lparr>iw := resize 0 (max (length (iw m2)) (sz_iw f)) (iw m2)\<rparr>;
          m4 = m3\<lparr>w := resize 0 (max (length (w m3)) (sz_w f)) (w m3)\<rparr>
      in m4)"

text \<open>A run of \<open>alloc\<close> calls, one per Function, in the order of the list.\<close>

definition alloc_all ::
  "'v::zero Function list \<Rightarrow> 'v SymbolicQrMemory \<Rightarrow> 'v SymbolicQrMemory" where
  "alloc_all fs m = fold SymbolicQrMemory_alloc fs m"

text \<open>
  The part of \<open>SymbolicQr::reset\<close> that touches the memory. The three Functions are
  generated symbolically from the sparsity pattern; here they are given, in the order in
  which \<open>reset\<close> creates them, together with the row count \<open>size1\<close> of the pattern. The
  first step is the reset of the base class, which stores the pattern in the memory; all
  that is used of it afterwards is its row count, \<open>nrow\<close>.
\<close>

definition SymbolicQr_reset ::
  "nat \<Rightarrow> 'v::zero Function \<Rightarrow> 'v Function \<Rightarrow> 'v Function \<Rightarrow>
   'v SymbolicQrMemory \<Rightarrow> 'v SymbolicQrMemory" where
  "SymbolicQr_reset size1 QR_fact QR_solv QR_solv_T m =
     (let m0 = m\<lparr>nrow := size1\<rparr>;
          m1 = SymbolicQrMemory_alloc QR_fact (m0\<lparr>factorize := QR_fact\<rparr>);
          m2 = SymbolicQrMemory_alloc QR_solv (m1\<lparr>solve := QR_solv\<rparr>);
          m3 = SymbolicQrMemory_alloc QR_solv_T (m2\<lparr>solveT := QR_solv_T\<rparr>);
          m4 = m3\<lparr>w := resize 0 (length (w m3) + size1) (w m3)\<rparr>;
          m5 = m4\<lparr>q := resize 0 (nnz_out (factorize m4) ! 0) (q m4)\<rparr>;
          m6 = m5\<lparr>r := resize 0 (nnz_out (factorize m5) ! 1) (r m5)\<rparr>
      in m6)"

section \<open>Numeric evaluation through pointers\<close>

text \<open>
  The state on which \<open>factorize\<close> and \<open>solve\<close> act: the solver memory and the two
  buffers of the caller, the nonzeros of \<open>A\<close> and the in/out buffer \<open>x\<close>.
\<close>

record 'v buffers =
  mem :: "'v SymbolicQrMemory"
  bufA :: "'v list"
  bufX :: "'v list"

fun region_get :: "'v buffers \<Rightarrow> region \<Rightarrow> 'v list" where
  "region_get s RegA = bufA s"
| "region_get s RegX = bufX s"
| "region_get s RegQ = q (mem s)"
| "region_get s RegR = r (mem s)"
| "region_get s RegW = w (mem s)"

fun region_set :: "region \<Rightarrow> 'v list \<Rightarrow> 'v buffers \<Rightarrow> 'v buffers" where
  "region_set RegA vs s = s\<lparr>bufA := vs\<rparr>"
| "region_set RegX vs s = s\<lparr>bufX := vs\<rparr>"
| "region_set RegQ vs s = s\<lparr>mem := (mem s)\<lparr>q := vs\<rparr>\<rparr>"
| "region_set RegR vs s = s\<lparr>mem := (mem s)\<lparr>r := vs\<rparr>\<rparr>"
| "region_set RegW vs s = s\<lparr>mem := (mem s)\<lparr>w := vs\<rparr>\<rparr>"

definition buf_read :: "'v buffers \<Rightarrow> ptr \<Rightarrow> nat \<Rightarrow> 'v list" where
  "buf_read s p n = take n (drop (snd p) (region_get s (fst p)))"

definition buf_write :: "ptr \<Rightarrow> 'v list \<Rightarrow> 'v buffers \<Rightarrow> 'v buffers" where
  "buf_write p vs s = region_set (fst p) (overwrite (snd p) vs (region_get s (fst p))) s"

text \<open>
  Modelled from the spec: the call operator of a Function on raw buffers (class
  \<open>Function\<close> is not among the source files). A call is a pure computation over the
  buffers supplied by the caller: input \<open>i\<close> is read through argument pointer \<open>i\<close> (a
  null pointer stands for an all-zero input), the floating scratch is used as work space,
  and output \<open>j\<close> is written through result pointer \<open>j\<close> (a null pointer means that the
  output is not wanted). The integer scratch has no influence on the outputs and is not
  passed on in the model; \<open>wp\<close> is the pointer to the floating scratch.
\<close>

definition fn_inputs :: "'v::zero Function \<Rightarrow> ptr option list \<Rightarrow> 'v buffers \<Rightarrow> 'v list list" where
  "fn_inputs f argv s =
     map (\<lambda>i. case argv ! i of
                 None \<Rightarrow> replicate (nnz_in f ! i) 0
               | Some p \<Rightarrow> buf_read s p (nnz_in f ! i)) [0..<n_in f]"

definition fn_call ::
  "'v::zero Function \<Rightarrow> ptr option list \<Rightarrow> ptr option list \<Rightarrow> ptr \<Rightarrow> 'v buffers \<Rightarrow> 'v buffers" where
  "fn_call f argv resv wp s =
     (let ins = fn_inputs f argv s;
          outs = fn_eval f ins;
          s1 = buf_write wp (take (sz_w f) (fn_work f ins)) s
      in fold (\<lambda>j t. case resv ! j of None \<Rightarrow> t | Some p \<Rightarrow> buf_write p (outs ! j) t)
           [0..<n_out f] s1)"

text \<open>\<open>SymbolicQr::factorize\<close>, with \<open>A\<close> the caller's buffer \<open>bufA\<close>.\<close>

definition SymbolicQr_factorize :: "'v::zero buffers \<Rightarrow> 'v buffers" where
  "SymbolicQr_factorize s =
     (let m = mem s;
          m1 = m\<lparr>arg := fill_n (arg m) (n_in (factorize m)) None\<rparr>;
          m2 = m1\<lparr>arg := (arg m1)[0 := Some (RegA, 0)]\<rparr>;
          m3 = m2\<lparr>res := fill_n (res m2) (n_out (factorize m2)) None\<rparr>;
          m4 = m3\<lparr>res := (res m3)[0 := Some (RegQ, 0)]\<rparr>;
          m5 = m4\<lparr>res := (res m4)[1 := Some (RegR, 0)]\<rparr>
      in fn_call (factorize m5) (arg m5) (res m5) (RegW, 0) (s\<lparr>mem := m5\<rparr>))"

text \<open>
  The body of the loop of \<open>SymbolicQr::solve\<close> for one right-hand side, in two parts;
  \<open>xp\<close> is the offset of the pointer \<open>x\<close> into the caller's buffer. First the statements
  in front of the call: \<open>nrow\<close> entries are copied from \<open>x\<close> to the start of \<open>w\<close>, the
  third argument pointer is set to \<open>w\<close> and the first result pointer to \<open>x\<close>. Then the
  call of the Function, which gets the part of \<open>w\<close> behind the copy as its floating
  scratch.
\<close>

definition solve_prepare :: "nat \<Rightarrow> 'v buffers \<Rightarrow> 'v buffers" where
  "solve_prepare xp s =
     (let n = nrow (mem s);
          s1 = buf_write (RegW, 0) (buf_read s (RegX, xp) n) s;
          s2 = s1\<lparr>mem := (mem s1)\<lparr>arg := (arg (mem s1))[2 := Some (RegW, 0)]\<rparr>\<rparr>;
          s3 = s2\<lparr>mem := (mem s2)\<lparr>res := (res (mem s2))[0 := Some (RegX, xp)]\<rparr>\<rparr>
      in s3)"

definition solve_step :: "'v::zero Function \<Rightarrow> nat \<Rightarrow> 'v buffers \<Rightarrow> 'v buffers" where
  "solve_step solv xp s =
     (let p = solve_prepare xp s
      in fn_call solv (arg (mem p)) (res (mem p)) (RegW, nrow (mem p)) p)"

text \<open>
  The loop itself: \<open>k\<close> counts the iterations still to run, and after every right-hand
  side the pointer \<open>x\<close> advances by the row count.
\<close>

fun solve_loop :: "'v::zero Function \<Rightarrow> nat \<Rightarrow> nat \<Rightarrow> 'v buffers \<Rightarrow> 'v buffers" where
  "solve_loop solv 0 xp s = s"
| "solve_loop solv (Suc k) xp s =
     (let s' = solve_step solv xp s in solve_loop solv k (xp + nrow (mem s')) s')"

text \<open>
  \<open>SymbolicQr::solve\<close>, with \<open>x\<close> the caller's buffer \<open>bufX\<close>. \<open>nrhs\<close> is a C++ \<open>int\<close>: the
  loop \<open>for (int i=0; i<nrhs; ++i)\<close> runs \<open>nat nrhs\<close> times, not at all when \<open>nrhs\<close> is
  negative.
\<close>

definition SymbolicQr_solve :: "int \<Rightarrow> bool \<Rightarrow> 'v::zero buffers \<Rightarrow> 'v buffers" where
  "SymbolicQr_solve nrhs tr s =
     (let m = mem s;
          solv = (if tr then solveT m else solve m);
          m1 = m\<lparr>arg := fill_n (arg m) (n_in solv) None\<rparr>;
          m2 = m1\<lparr>arg := (arg m1)[0 := Some (RegQ, 0)]\<rparr>;
          m3 = m2\<lparr>arg := (arg m2)[1 := Some (RegR, 0)]\<rparr>;
          m4 = m3\<lparr>res := fill_n (res m3) (n_out solv) None\<rparr>
      in solve_loop solv (nat nrhs) 0 (s\<lparr>mem := m4\<rparr>))"

text \<open>
  For the statements about single iterations: the state of \<open>solve\<close> after the pointer
  set-up in front of the loop, segment \<open>i\<close> of the caller's buffer, and the state in
  iteration \<open>i\<close> at the call of the Function. The latter is the state after the first \<open>i\<close>
  right-hand sides, which is what \<open>solve\<close> yields for \<open>nrhs = i\<close>, put through the
  statements in front of the call.
\<close>

definition solve_setup :: "bool \<Rightarrow> 'v::zero buffers \<Rightarrow> 'v buffers" where
  "solve_setup tr s =
     (let m = mem s;
          solv = (if tr then solveT m else solve m);
          m1 = m\<lparr>arg := fill_n (arg m) (n_in solv) None\<rparr>;
          m2 = m1\<lparr>arg := (arg m1)[0 := Some (RegQ, 0)]\<rparr>;
          m3 = m2\<lparr>arg := (arg m2)[1 := Some (RegR, 0)]\<rparr>;
          m4 = m3\<lparr>res := fill_n (res m3) (n_out solv) None\<rparr>
      in s\<lparr>mem := m4\<rparr>)"

definition rhs_segment :: "'v buffers \<Rightarrow> nat \<Rightarrow> 'v list" where
  "rhs_segment s i = take (nrow (mem s)) (drop (i * nrow (mem s)) (bufX s))"

definition prepared :: "bool \<Rightarrow> 'v::zero buffers \<Rightarrow> nat \<Rightarrow> 'v buffers" where
  "prepared tr s i = solve_prepare (i * nrow (mem s)) (SymbolicQr_solve (int i) tr s)"

text \<open>
  What the two evaluations compute, read off the buffers: the outputs of the
  factorization Function on the nonzeros of \<open>A\<close>, and the output of a solve Function on
  the stored factors and one right-hand side \<open>b\<close>.
\<close>

definition factorize_outputs :: "'v buffers \<Rightarrow> 'v list list" where
  "factorize_outputs s =
     fn_eval (factorize (mem s)) [take (nnz_in (factorize (mem s)) ! 0) (bufA s)]"

definition solve_rhs :: "'v Function \<Rightarrow> 'v SymbolicQrMemory \<Rightarrow> 'v list \<Rightarrow> 'v list" where
  "solve_rhs solv m b =
     fn_eval solv [take (nnz_in solv ! 0) (q m), take (nnz_in solv ! 1) (r m), b] ! 0"

definition selected :: "bool \<Rightarrow> 'v SymbolicQrMemory \<Rightarrow> 'v Function" where
  "selected tr m = (if tr then solveT m else solve m)"

text \<open>
  The sizes under which the pointer accesses of \<open>factorize\<close> and \<open>solve\<close> stay inside
  their arrays: the Function has the arity the caller assumes (one input and two outputs
  for the factorization; the factors and a right-hand side of \<open>nrow\<close> entries as inputs
  and one output for a solve), the pointer vectors have room for the slots that are
  written, and \<open>w\<close> holds the temporary and the scratch of the Function.
\<close>

definition factorize_ready :: "'v buffers \<Rightarrow> bool" where
  "factorize_ready s \<longleftrightarrow>
     n_in (factorize (mem s)) = 1 \<and> n_out (factorize (mem s)) = 2 \<and>
     1 \<le> length (arg (mem s)) \<and> 2 \<le> length (res (mem s)) \<and>
     sz_w (factorize (mem s)) \<le> length (w (mem s))"

definition solve_ready :: "'v Function \<Rightarrow> 'v buffers \<Rightarrow> bool" where
  "solve_ready solv s \<longleftrightarrow>
     n_in solv = 3 \<and> n_out solv = 1 \<and> nnz_in solv ! 2 = nrow (mem s) \<and>
     3 \<le> length (arg (mem s)) \<and> 1 \<le> length (res (mem s)) \<and>
     nrow (mem s) + sz_w solv \<le> length (w (mem s))"

text \<open>
  The loop invariant of \<open>solve\<close>: the first two argument pointers stay on the stored
  factors.
\<close>

definition solve_inv :: "'v Function \<Rightarrow> 'v buffers \<Rightarrow> bool" where
  "solve_inv solv s \<longleftrightarrow>
     solve_ready solv s \<and>
     arg (mem s) ! 0 = Some (RegQ, 0) \<and> arg (mem s) ! 1 = Some (RegR, 0)"

section \<open>Block-triangular permutations and the solve expressions built in reset\<close>

text \<open>
  The sparsity pattern of the data model: row and column count, the column-start offsets
  and the row index of every nonzero. \<open>positions\<close> lists the row and column of each
  nonzero in storage order.
\<close>

record Sparsity =
  sp_size1 :: nat
  sp_size2 :: nat
  sp_colind :: "nat list"
  sp_row :: "nat list"

definition positions :: "Sparsity \<Rightarrow> (nat \<times> nat) list" where
  "positions sp =
     concat (map (\<lambda>cc. map (\<lambda>el. (sp_row sp ! el, cc))
                          [sp_colind sp ! cc ..< sp_colind sp ! Suc cc])
               [0..<sp_size2 sp])"

text \<open>
  The two fields of \<open>Sparsity::Btf\<close> that \<open>SymbolicQr::reset\<close> reads: the row and the
  column permutation, vectors of indices.
\<close>

record Btf =
  rowperm :: "nat list"
  colperm :: "nat list"

text \<open>
  The data model's invariant for these vectors: a bijection on \<open>[0, n)\<close>, where \<open>n\<close> is
  the length. No entry occurs twice and every entry is below \<open>n\<close>.
\<close>

definition is_permutation :: "nat list \<Rightarrow> bool" where
  "is_permutation p \<longleftrightarrow> distinct p \<and> (\<forall>i \<in> set p. i < length p)"

text \<open>
  The inversion loops of \<open>reset\<close>: a zero-initialised vector of the same size, then
  \<open>inv[perm[k]] = k\<close> for \<open>k\<close> from \<open>0\<close> upwards. A store outside the vector is undefined
  behaviour in C++; the model returns \<open>None\<close> for it.
\<close>

definition invert_step :: "nat list \<Rightarrow> nat \<Rightarrow> nat list option \<Rightarrow> nat list option" where
  "invert_step perm k acc =
     (case acc of
        None \<Rightarrow> None
      | Some iv \<Rightarrow> if perm ! k < length iv then Some (iv[perm ! k := k]) else None)"

definition invert_perm :: "nat list \<Rightarrow> nat list option" where
  "invert_perm perm =
     fold (invert_step perm) [0..<length perm] (Some (replicate (length perm) 0))"

text \<open>
  Modelled from the spec: the symbolic matrix operations that \<open>reset\<close> composes (indexing
  by permutation vectors, product, transpose; the classes behind them are not among the
  source files). A matrix is the function from positions to entries, a vector likewise;
  \<open>mat_perm A rp cp\<close> is \<open>A(rp, cp)\<close>, the matrix permuted by row and column
  permutations, and \<open>vec_perm b p\<close> is \<open>b(p, Slice())\<close>. Entries are taken in a commutative
  ring, so the arithmetic is exact.
\<close>

type_synonym 'a mat = "nat \<Rightarrow> nat \<Rightarrow> 'a"
type_synonym 'a vec = "nat \<Rightarrow> 'a"

definition mat_perm :: "'a mat \<Rightarrow> nat list \<Rightarrow> nat list \<Rightarrow> 'a mat" where
  "mat_perm A rp cp = (\<lambda>i j. A (rp ! i) (cp ! j))"

definition vec_perm :: "'a vec \<Rightarrow> nat list \<Rightarrow> 'a vec" where
  "vec_perm b p = (\<lambda>i. b (p ! i))"

definition mtimes :: "nat \<Rightarrow> 'a::comm_ring_1 mat \<Rightarrow> 'a vec \<Rightarrow> 'a vec" where
  "mtimes n M v = (\<lambda>i. \<Sum>k<n. M i k * v k)"

definition mat_T :: "'a mat \<Rightarrow> 'a mat" where
  "mat_T M = (\<lambda>i j. M j i)"

text \<open>
  Modelled from the spec: what \<open>reset\<close> relies on from the factorization \<open>qr\<close> and from
  the linear solve \<open>SX::solve\<close> (both outside the source files). \<open>qr\<close> returns \<open>Q\<close> and \<open>R\<close>
  with \<open>Q R\<close> the factorized matrix and \<open>Q\<close> orthogonal; the solve returns a solution of
  the system with the given coefficient matrix, for every right-hand side.
\<close>

definition qr_factors :: "nat \<Rightarrow> 'a::comm_ring_1 mat \<Rightarrow> 'a mat \<Rightarrow> 'a mat \<Rightarrow> bool" where
  "qr_factors n Q R M \<longleftrightarrow>
     (\<forall>i<n. \<forall>j<n. (\<Sum>k<n. Q i k * R k j) = M i j) \<and>
     (\<forall>i<n. \<forall>j<n. (\<Sum>k<n. Q k i * Q k j) = (if i = j then 1 else 0)) \<and>
     (\<forall>i<n. \<forall>j<n. (\<Sum>k<n. Q i k * Q j k) = (if i = j then 1 else 0))"

definition solves :: "nat \<Rightarrow> ('a::comm_ring_1 mat \<Rightarrow> 'a vec \<Rightarrow> 'a vec) \<Rightarrow> 'a mat \<Rightarrow> bool" where
  "solves n lsolve R \<longleftrightarrow> (\<forall>y. \<forall>i<n. (\<Sum>j<n. R i j * lsolve R y j) = y i)"

text \<open>
  The three Functions that \<open>SymbolicQr::reset\<close> generates, as mappings: the
  factorization of the permuted matrix, and the two solves. The non-transposed solve
  permutes the right-hand side by the row permutation, solves with \<open>R\<close> against
  \<open>Q\<^sup>T bperm\<close>, and indexes the result by the inverted column permutation; the transposed
  solve permutes by the column permutation, solves with \<open>R\<^sup>T\<close>, multiplies by \<open>Q\<close>, and
  indexes by the inverted row permutation. \<open>qr\<close> and \<open>lsolve\<close> are the two library
  routines, and \<open>n\<close> is the dimension of the system.
\<close>

record 'a qr_functions =
  fact_fn :: "'a mat \<Rightarrow> 'a mat \<times> 'a mat"
  solv_fn :: "'a mat \<Rightarrow> 'a mat \<Rightarrow> 'a vec \<Rightarrow> 'a vec"
  solvT_fn :: "'a mat \<Rightarrow> 'a mat \<Rightarrow> 'a vec \<Rightarrow> 'a vec"

definition reset_functions ::
  "('a::comm_ring_1 mat \<Rightarrow> 'a mat \<times> 'a mat) \<Rightarrow> ('a mat \<Rightarrow> 'a vec \<Rightarrow> 'a vec) \<Rightarrow> nat \<Rightarrow> Btf \<Rightarrow>
   'a qr_functions option" where
  "reset_functions qr lsolve n btf =
     (case invert_perm (colperm btf) of
        None \<Rightarrow> None
      | Some inv_colperm \<Rightarrow>
     (case invert_perm (rowperm btf) of
        None \<Rightarrow> None
      | Some inv_rowperm \<Rightarrow>
          Some \<lparr>fact_fn = (\<lambda>A. qr (mat_perm A (rowperm btf) (colperm btf))),
                solv_fn = (\<lambda>Q R b.
                  let bperm = vec_perm b (rowperm btf);
                      xperm = lsolve R (mtimes n (mat_T Q) bperm)
                  in vec_perm xperm inv_colperm),
                solvT_fn = (\<lambda>Q R b.
                  let bperm = vec_perm b (colperm btf);
                      xperm = mtimes n Q (lsolve (mat_T R) bperm)
                  in vec_perm xperm inv_rowperm)\<rparr>))"

text \<open>
  Matrices and vectors in storage. \<open>nz_of sp M\<close> lists the entries of \<open>M\<close> at the stored
  positions of the pattern \<open>sp\<close>, in storage order; \<open>mat_of sp vals\<close> is the matrix with the
  nonzeros \<open>vals\<close> at the pattern and zero everywhere else, which is what a symbolic matrix
  \<open>SX::sym(name, sp)\<close> evaluates to when the buffer \<open>vals\<close> is bound to it. \<open>vec_of\<close> and
  \<open>nz_of_vec\<close> are the same for a dense column vector. \<open>stored sp M\<close> is \<open>M\<close> after its
  entries have been written to a buffer with pattern \<open>sp\<close> and read back: the entries at the
  pattern are kept and all others are zero.
\<close>

definition nz_of :: "Sparsity \<Rightarrow> 'a mat \<Rightarrow> 'a list" where
  "nz_of sp M = map (\<lambda>(rr, cc). M rr cc) (positions sp)"

definition mat_of :: "Sparsity \<Rightarrow> 'a::zero list \<Rightarrow> 'a mat" where
  "mat_of sp vals =
     (\<lambda>i j. case map_of (zip (positions sp) vals) (i, j) of None \<Rightarrow> 0 | Some v \<Rightarrow> v)"

definition vec_of :: "'a::zero list \<Rightarrow> 'a vec" where
  "vec_of vals = (\<lambda>i. if i < length vals then vals ! i else 0)"

definition nz_of_vec :: "nat \<Rightarrow> 'a vec \<Rightarrow> 'a list" where
  "nz_of_vec n v = map v [0..<n]"

definition stored :: "Sparsity \<Rightarrow> 'a::zero mat \<Rightarrow> 'a mat" where
  "stored sp M = mat_of sp (nz_of sp M)"

text \<open>
  Modelled from the spec: the constructor \<open>Function(name, inputs, outputs, options)\<close> (class
  \<open>Function\<close> is not among the source files). The spec describes the result as the compiled
  mapping from the listed inputs to the listed outputs, with input and output counts, the
  nonzero counts of their patterns, and scratch requirements that are conservative upper
  bounds. The counts follow from the lists; the scratch requirements are decided by the
  compiler and are a parameter, \<open>sc name\<close> for the Function called \<open>name\<close>: argument and
  result slots beyond one per input and output, integer and floating scratch words, and
  what an evaluation leaves in the floating scratch. The options \<open>fopts_\<close> passed to the
  constructor choose how the Function is compiled, not what it computes.
\<close>

record 'v Scratch =
  extra_arg :: nat
  extra_res :: nat
  need_iw :: nat
  need_w :: nat
  leaves :: "'v list list \<Rightarrow> 'v list"

definition Function_of ::
  "(string \<Rightarrow> 'v Scratch) \<Rightarrow> string \<Rightarrow> nat list \<Rightarrow> nat list \<Rightarrow>
   ('v list list \<Rightarrow> 'v list list) \<Rightarrow> 'v Function" where
  "Function_of sc name nin nout f =
     \<lparr>n_in = length nin, n_out = length nout, nnz_in = nin, nnz_out = nout,
      sz_arg = length nin + extra_arg (sc name), sz_res = length nout + extra_res (sc name),
      sz_iw = need_iw (sc name), sz_w = need_w (sc name),
      fn_eval = f, fn_work = leaves (sc name)\<rparr>"

text \<open>
  The three constructor calls of \<open>SymbolicQr::reset\<close>, for the pattern \<open>s\<close> of \<open>A\<close> and the
  patterns \<open>sQ\<close>, \<open>sR\<close> of the symbolic factors \<open>Q1\<close> and \<open>R1\<close>. \<open>QR_fact\<close> has the input \<open>A\<close>
  and the outputs \<open>Q1\<close>, \<open>R1\<close>. The two solve Functions have the inputs \<open>Q\<close>, \<open>R\<close> and \<open>b\<close>,
  where \<open>Q\<close> and \<open>R\<close> are fresh symbols with the patterns of \<open>Q1\<close> and \<open>R1\<close> and \<open>b\<close> is a
  dense column with \<open>s.size2()\<close> entries, and the output \<open>x\<close>. Evaluated on buffers, each
  reads its inputs at their patterns, and writes the nonzeros of its outputs.
\<close>

definition QR_fact ::
  "(string \<Rightarrow> 'a Scratch) \<Rightarrow> Sparsity \<Rightarrow> Sparsity \<Rightarrow> Sparsity \<Rightarrow>
   'a::comm_ring_1 qr_functions \<Rightarrow> 'a Function" where
  "QR_fact sc s sQ sR E =
     Function_of sc ''QR_fact'' [length (positions s)]
       [length (positions sQ), length (positions sR)]
       (\<lambda>ins. case fact_fn E (mat_of s (ins ! 0)) of (Q1, R1) \<Rightarrow> [nz_of sQ Q1, nz_of sR R1])"

definition QR_solv ::
  "(string \<Rightarrow> 'a Scratch) \<Rightarrow> Sparsity \<Rightarrow> Sparsity \<Rightarrow> Sparsity \<Rightarrow>
   'a::comm_ring_1 qr_functions \<Rightarrow> 'a Function" where
  "QR_solv sc s sQ sR E =
     Function_of sc ''QR_solv'' [length (positions sQ), length (positions sR), sp_size2 s]
       [sp_size2 s]
       (\<lambda>ins. [nz_of_vec (sp_size2 s)
                 (solv_fn E (mat_of sQ (ins ! 0)) (mat_of sR (ins ! 1)) (vec_of (ins ! 2)))])"

definition QR_solv_T ::
  "(string \<Rightarrow> 'a Scratch) \<Rightarrow> Sparsity \<Rightarrow> Sparsity \<Rightarrow> Sparsity \<Rightarrow>
   'a::comm_ring_1 qr_functions \<Rightarrow> 'a Function" where
  "QR_solv_T sc s sQ sR E =
     Function_of sc ''QR_solv_T'' [length (positions sQ), length (positions sR), sp_size2 s]
       [sp_size2 s]
       (\<lambda>ins. [nz_of_vec (sp_size2 s)
                 (solvT_fn E (mat_of sQ (ins ! 0)) (mat_of sR (ins ! 1)) (vec_of (ins ! 2)))])"

text \<open>
  \<open>SymbolicQr::reset\<close> as a whole, for the pattern \<open>s\<close>: the permutations are inverted, the
  three expressions are built and compiled, and the memory is sized as in
  \<open>SymbolicQr_reset\<close>. The block-triangular form \<open>btf\<close> of the pattern, the patterns \<open>sQ\<close>
  and \<open>sR\<close> that the symbolic factorization gives its results, and the routines \<open>qr\<close> and
  \<open>lsolve\<close> come from the core library. The result is \<open>None\<close> when an inversion loop stores
  outside its vector.
\<close>

definition SymbolicQr_reset_sp ::
  "('a::comm_ring_1 mat \<Rightarrow> 'a mat \<times> 'a mat) \<Rightarrow> ('a mat \<Rightarrow> 'a vec \<Rightarrow> 'a vec) \<Rightarrow>
   (string \<Rightarrow> 'a Scratch) \<Rightarrow> Btf \<Rightarrow> Sparsity \<Rightarrow> Sparsity \<Rightarrow> Sparsity \<Rightarrow>
   'a SymbolicQrMemory \<Rightarrow> 'a SymbolicQrMemory option" where
  "SymbolicQr_reset_sp qr lsolve sc btf sQ sR s m =
     (case reset_functions qr lsolve (sp_size1 s) btf of
        None \<Rightarrow> None
      | Some E \<Rightarrow>
          Some (SymbolicQr_reset (sp_size1 s) (QR_fact sc s sQ sR E) (QR_solv sc s sQ sR E)
                  (QR_solv_T sc s sQ sR E) m))"

text \<open>
  An instance with two unknowns, a nontrivial permutation and factors that are not
  diagonal: the block-triangular form swaps the two rows, \<open>qr\<close> is the Gram-Schmidt
  orthogonalisation of the two columns, and the linear solve is Cramer's rule. For the
  matrix with rows \<open>(4, 7)\<close> and \<open>(3, -1)\<close> the permuted matrix has the rows \<open>(3, -1)\<close> and
  \<open>(4, 7)\<close>, and its factors are the rotation \<open>rot_Q\<close> and the triangle \<open>tri_R\<close>. The three
  Functions of the instance ask for three words of floating scratch each.
\<close>

definition swap_btf :: Btf where
  "swap_btf = \<lparr>rowperm = [1, 0], colperm = [0, 1]\<rparr>"

definition gram_schmidt :: "real mat \<Rightarrow> real mat \<times> real mat" where
  "gram_schmidt M =
     (let n0 = sqrt (M 0 0 * M 0 0 + M 1 0 * M 1 0);
          q00 = M 0 0 / n0; q10 = M 1 0 / n0;
          r01 = q00 * M 0 1 + q10 * M 1 1;
          u0 = M 0 1 - r01 * q00; u1 = M 1 1 - r01 * q10;
          n1 = sqrt (u0 * u0 + u1 * u1);
          q01 = u0 / n1; q11 = u1 / n1
      in ((\<lambda>i j. if i = 0 then (if j = 0 then q00 else q01) else (if j = 0 then q10 else q11)),
          (\<lambda>i j. if i = 0 then (if j = 0 then n0 else r01) else (if j = 0 then 0 else n1))))"

definition cramer :: "real mat \<Rightarrow> real vec \<Rightarrow> real vec" where
  "cramer M y =
     (\<lambda>i. if i = 0 then (y 0 * M 1 1 - M 0 1 * y 1) / (M 0 0 * M 1 1 - M 0 1 * M 1 0)
          else (M 0 0 * y 1 - y 0 * M 1 0) / (M 0 0 * M 1 1 - M 0 1 * M 1 0))"

definition rot_Q :: "real mat" where
  "rot_Q = (\<lambda>i j. if i = 0 then (if j = 0 then 3 / 5 else - 4 / 5)
                  else (if j = 0 then 4 / 5 else 3 / 5))"

definition tri_R :: "real mat" where
  "tri_R = (\<lambda>i j. if i = 0 then (if j = 0 then 5 else 5) else (if j = 0 then 0 else 5))"

definition no_scratch :: "string \<Rightarrow> real Scratch" where
  "no_scratch name =
     \<lparr>extra_arg = 0, extra_res = 0, need_iw = 0, need_w = 3, leaves = (\<lambda>ins. concat ins)\<rparr>"

section \<open>Structural nodes: tiled replication, tiled sum and rank-1 update\<close>

text \<open>
  The node classes \<open>HorzRepmat\<close> and \<open>HorzRepsum\<close> each carry the replication count
  \<open>n_\<close>, a C++ \<open>int\<close>.
\<close>

record HorzRepmat =
  repmat_n :: int

record HorzRepsum =
  repsum_n :: int

text \<open>
  Modelled from the spec: \<open>HorzRepmat::evalGen\<close> (declared in the header, its body is not
  among the source files). The evaluation copies the nonzero buffer of \<open>X\<close> \<open>n\<close> times,
  one copy after the other.
\<close>

definition HorzRepmat_evalGen :: "HorzRepmat \<Rightarrow> 'a list \<Rightarrow> 'a list" where
  "HorzRepmat_evalGen node x = concat (replicate (nat (repmat_n node)) x)"

text \<open>
  Modelled from the spec: \<open>HorzRepsum::evalGen\<close> (declared in the header, its body is not
  among the source files). The input consists of \<open>n\<close> horizontal blocks of \<open>nnz\<close> nonzeros
  each; starting from zeros, the blocks are accumulated elementwise into one block with
  the reduction given as a parameter. The numeric evaluation uses the sum.
\<close>

definition HorzRepsum_evalGen ::
  "HorzRepsum \<Rightarrow> ('a::zero \<Rightarrow> 'a \<Rightarrow> 'a) \<Rightarrow> nat \<Rightarrow> 'a list \<Rightarrow> 'a list" where
  "HorzRepsum_evalGen node reduction nnz arg0 =
     fold (\<lambda>i acc. map2 reduction acc (take nnz (drop (i * nnz) arg0)))
       [0..<nat (repsum_n node)] (replicate nnz 0)"

definition HorzRepsum_eval :: "HorzRepsum \<Rightarrow> nat \<Rightarrow> 'a::comm_ring_1 list \<Rightarrow> 'a list" where
  "HorzRepsum_eval node nnz arg0 = HorzRepsum_evalGen node (+) nnz arg0"




text \<open>An instance: the dense pattern with two rows and two columns.\<close>

definition dense22 :: Sparsity where
  "dense22 = \<lparr>sp_size1 = 2, sp_size2 = 2, sp_colind = [0, 2, 4], sp_row = [0, 1, 0, 1]\<rparr>"

section \<open>The reverse-communication loop of the WORHP interface\<close>

text \<open>
  WORHP is a library outside this repository. Its state (the four structures handed to
  every call) is a type parameter \<open>'st\<close>, and what the loop uses of the library is a
  record of parameters: the status codes that the loop compares with, access to the
  status field of the control structure, the user-action flags, the routines \<open>Worhp\<close>,
  \<open>IterationOutput\<close> and \<open>WorhpFidif\<close>, and \<open>calc_function\<close>, which stands for the
  evaluation of the requested NLP function into the WORHP workspace.
\<close>

datatype user_action = callWorhp | iterOutput | evalF | evalG | evalDF | evalDG | evalHM | fidif

record 'st WorhpLib =
  TerminateSuccess :: int
  TerminateError :: int
  TerminatedByUser :: int
  get_status :: "'st \<Rightarrow> int"
  set_status :: "int \<Rightarrow> 'st \<Rightarrow> 'st"
  GetUserAction :: "'st \<Rightarrow> user_action \<Rightarrow> bool"
  DoneUserAction :: "user_action \<Rightarrow> 'st \<Rightarrow> 'st"
  Worhp :: "'st \<Rightarrow> 'st"
  IterationOutput :: "'st \<Rightarrow> 'st"
  WorhpFidif :: "'st \<Rightarrow> 'st"
  calc_function :: "user_action \<Rightarrow> 'st \<Rightarrow> 'st"

text \<open>
  The state of the loop in \<open>WorhpInterface::solve\<close>: the WORHP structures, the local
  flag \<open>firstIteration\<close>, and a counter of the evaluations of the callback Function (a
  ghost variable: it records each call \<open>fcallback_(...)\<close>).
\<close>

record 'st loop_state =
  worhp :: 'st
  firstIteration :: bool
  callback_evals :: nat

text \<open>\<open>static_cast<int>\<close> of a \<open>double\<close>: truncation towards zero.\<close>

definition static_cast_int :: "real \<Rightarrow> int" where
  "static_cast_int d = (if 0 \<le> d then \<lfloor>d\<rfloor> else \<lceil>d\<rceil>)"

text \<open>
  The block run for the \<open>iterOutput\<close> action. \<open>fcallback\<close> is \<open>None\<close> for a null callback
  Function; otherwise it maps the current iterate to the number the callback returns.
\<close>

definition iter_output_block ::
  "'st WorhpLib \<Rightarrow> ('st \<Rightarrow> real) option \<Rightarrow> 'st loop_state \<Rightarrow> 'st loop_state" where
  "iter_output_block lib fcallback s =
     (let s1 =
        (if \<not> firstIteration s then
           (let t = s\<lparr>firstIteration := True\<rparr> in
            case fcallback of
              None \<Rightarrow> t
            | Some f \<Rightarrow>
                (let ret_double = f (worhp t);
                     t1 = t\<lparr>callback_evals := callback_evals t + 1\<rparr>;
                     ret = static_cast_int ret_double
                 in if ret \<noteq> 0
                    then t1\<lparr>worhp := set_status lib (TerminatedByUser lib) (worhp t1)\<rparr>
                    else t1))
         else s)
      in s1\<lparr>worhp := DoneUserAction lib iterOutput (IterationOutput lib (worhp s1))\<rparr>)"

text \<open>
  The blocks for the five evaluation actions have one shape: evaluate, then mark the
  action as done.
\<close>

definition eval_block :: "'st WorhpLib \<Rightarrow> user_action \<Rightarrow> 'st loop_state \<Rightarrow> 'st loop_state" where
  "eval_block lib a s =
     (if GetUserAction lib (worhp s) a
      then s\<lparr>worhp := DoneUserAction lib a (calc_function lib a (worhp s))\<rparr>
      else s)"

definition loop_body ::
  "'st WorhpLib \<Rightarrow> ('st \<Rightarrow> real) option \<Rightarrow> 'st loop_state \<Rightarrow> 'st loop_state" where
  "loop_body lib fcallback s =
     (let s1 = (if GetUserAction lib (worhp s) callWorhp
                then s\<lparr>worhp := Worhp lib (worhp s)\<rparr> else s);
          s2 = (if GetUserAction lib (worhp s1) iterOutput
                then iter_output_block lib fcallback s1 else s1);
          s3 = fold (eval_block lib) [evalF, evalG, evalDF, evalDG, evalHM] s2;
          s4 = (if GetUserAction lib (worhp s3) fidif
                then s3\<lparr>worhp := WorhpFidif lib (worhp s3)\<rparr> else s3)
      in s4)"

text \<open>
  The loop condition and the loop. The loop ends when WORHP's status leaves the open
  interval between the two codes, which is up to the library; the model runs at most
  \<open>fuel\<close> iterations and returns \<open>None\<close> when the loop is still running then.
\<close>

definition running :: "'st WorhpLib \<Rightarrow> 'st loop_state \<Rightarrow> bool" where
  "running lib s \<longleftrightarrow>
     get_status lib (worhp s) < TerminateSuccess lib \<and>
     get_status lib (worhp s) > TerminateError lib"

fun reverse_communication ::
  "'st WorhpLib \<Rightarrow> ('st \<Rightarrow> real) option \<Rightarrow> nat \<Rightarrow> 'st loop_state \<Rightarrow> 'st loop_state option" where
  "reverse_communication lib fcallback 0 s = (if running lib s then None else Some s)"
| "reverse_communication lib fcallback (Suc fuel) s =
     (if running lib s then reverse_communication lib fcallback fuel (loop_body lib fcallback s)
      else Some s)"

definition WorhpInterface_solve_loop ::
  "'st WorhpLib \<Rightarrow> ('st \<Rightarrow> real) option \<Rightarrow> nat \<Rightarrow> 'st \<Rightarrow> 'st loop_state option" where
  "WorhpInterface_solve_loop lib fcallback fuel st =
     reverse_communication lib fcallback fuel
       \<lparr>worhp = st, firstIteration = True, callback_evals = 0\<rparr>"

text \<open>
  An instance of the library for evaluation: the state is a status and an iteration
  count, every iteration requests \<open>callWorhp\<close> and \<open>iterOutput\<close>, and \<open>Worhp\<close> reports
  success in its third call. The numeric codes are those of the instance.
\<close>

definition counting_lib :: "(int \<times> nat) WorhpLib" where
  "counting_lib =
     \<lparr>TerminateSuccess = 1000, TerminateError = - 1000, TerminatedByUser = - 1016,
      get_status = fst,
      set_status = (\<lambda>v st. (v, snd st)),
      GetUserAction = (\<lambda>st a. a = callWorhp \<or> a = iterOutput),
      DoneUserAction = (\<lambda>a st. st),
      Worhp = (\<lambda>st. (if 3 \<le> Suc (snd st) then 1000 else fst st, Suc (snd st))),
      IterationOutput = (\<lambda>st. st),
      WorhpFidif = (\<lambda>st. st),
      calc_function = (\<lambda>a st. st)\<rparr>"

section \<open>Option handling at initialisation\<close>




















section \<open>A concrete instance: a diagonal system with two unknowns\<close>

text \<open>
  An instance on which the theorems below are evaluated. For a diagonal matrix with
  nonzeros \<open>a\<close> the QR factorization has the diagonal factors \<open>Q = sgn a\<close> and \<open>R = \<bar>a\<bar>\<close>,
  and both solve Functions compute \<open>x\<^sub>i = q\<^sub>i b\<^sub>i / r\<^sub>i\<close>. \<open>fresh_mem\<close> is a memory before
  its first reset, \<open>diag_mem\<close> the memory after the reset for this pattern, and
  \<open>diag_state\<close> puts factors, matrix nonzeros and a right-hand side buffer around it.
\<close>

definition diag_fact :: "real Function" where
  "diag_fact =
     \<lparr>n_in = 1, n_out = 2, nnz_in = [2], nnz_out = [2, 2],
      sz_arg = 1, sz_res = 2, sz_iw = 0, sz_w = 4,
      fn_eval = (\<lambda>ins. [map sgn (ins ! 0), map abs (ins ! 0)]),
      fn_work = (\<lambda>ins. ins ! 0)\<rparr>"

definition diag_solv :: "real Function" where
  "diag_solv =
     \<lparr>n_in = 3, n_out = 1, nnz_in = [2, 2, 2], nnz_out = [2],
      sz_arg = 3, sz_res = 1, sz_iw = 0, sz_w = 2,
      fn_eval = (\<lambda>ins. [map (\<lambda>(qv, rv, bv). qv * bv / rv) (zip (ins ! 0) (zip (ins ! 1) (ins ! 2)))]),
      fn_work = (\<lambda>ins. ins ! 2)\<rparr>"

definition fresh_mem :: "real SymbolicQrMemory" where
  "fresh_mem =
     \<lparr>nrow = 0, arg = [], res = [], iw = [], w = [],
      factorize = diag_fact, solve = diag_solv, solveT = diag_solv, q = [], r = []\<rparr>"

definition diag_mem :: "real SymbolicQrMemory" where
  "diag_mem = SymbolicQr_reset 2 diag_fact diag_solv diag_solv fresh_mem"

definition diag_state :: "real list \<Rightarrow> real list \<Rightarrow> real list \<Rightarrow> real list \<Rightarrow> real buffers" where
  "diag_state qs rs as xs = \<lparr>mem = diag_mem\<lparr>q := qs, r := rs\<rparr>, bufA = as, bufX = xs\<rparr>"

section \<open>Sizes of the work vectors\<close>

lemma length_resize: "length (resize d n xs) = n"
  by (simp add: resize_def)

lemma alloc_sizes:
  "length (arg (SymbolicQrMemory_alloc f m)) = max (length (arg m)) (sz_arg f)"
  "length (res (SymbolicQrMemory_alloc f m)) = max (length (res m)) (sz_res f)"
  "length (iw (SymbolicQrMemory_alloc f m)) = max (length (iw m)) (sz_iw f)"
  "length (w (SymbolicQrMemory_alloc f m)) = max (length (w m)) (sz_w f)"
  by (simp_all add: SymbolicQrMemory_alloc_def Let_def length_resize)

lemma alloc_fields:
  "nrow (SymbolicQrMemory_alloc f m) = nrow m"
  "factorize (SymbolicQrMemory_alloc f m) = factorize m"
  "solve (SymbolicQrMemory_alloc f m) = solve m"
  "solveT (SymbolicQrMemory_alloc f m) = solveT m"
  "q (SymbolicQrMemory_alloc f m) = q m"
  "r (SymbolicQrMemory_alloc f m) = r m"
  by (simp_all add: SymbolicQrMemory_alloc_def Let_def)

lemma alloc_all_simps:
  "alloc_all [] m = m"
  "alloc_all (f # fs) m = alloc_all fs (SymbolicQrMemory_alloc f m)"
  by (simp_all add: alloc_all_def)

lemma alloc_all_grows:
  "length (arg m) \<le> length (arg (alloc_all fs m)) \<and>
   length (res m) \<le> length (res (alloc_all fs m)) \<and>
   length (iw m) \<le> length (iw (alloc_all fs m)) \<and>
   length (w m) \<le> length (w (alloc_all fs m))"
proof (induction fs arbitrary: m)
  case Nil
  show ?case by (simp add: alloc_all_simps)
next
  case (Cons f fs)
  from Cons.IH [of "SymbolicQrMemory_alloc f m"]
  show ?case by (simp add: alloc_all_simps alloc_sizes)
qed

lemma alloc_all_covers:
  "f \<in> set fs \<Longrightarrow>
   sz_arg f \<le> length (arg (alloc_all fs m)) \<and>
   sz_res f \<le> length (res (alloc_all fs m)) \<and>
   sz_iw f \<le> length (iw (alloc_all fs m)) \<and>
   sz_w f \<le> length (w (alloc_all fs m))"
proof (induction fs arbitrary: m)
  case Nil
  then show ?case by simp
next
  case (Cons g fs)
  show ?case
  proof (cases "f = g")
    case True
    from alloc_all_grows [of "SymbolicQrMemory_alloc g m" fs] True
    show ?thesis by (simp add: alloc_all_simps alloc_sizes)
  next
    case False
    with Cons.prems have "f \<in> set fs" by simp
    from Cons.IH [OF this, of "SymbolicQrMemory_alloc g m"]
    show ?thesis by (simp add: alloc_all_simps)
  qed
qed

lemma reset_fields:
  "nrow (SymbolicQr_reset n F S T m) = n"
  "factorize (SymbolicQr_reset n F S T m) = F"
  "solve (SymbolicQr_reset n F S T m) = S"
  "solveT (SymbolicQr_reset n F S T m) = T"
  "length (q (SymbolicQr_reset n F S T m)) = nnz_out F ! 0"
  "length (r (SymbolicQr_reset n F S T m)) = nnz_out F ! 1"
  by (simp_all add: SymbolicQr_reset_def Let_def alloc_fields length_resize)

lemma reset_sizes:
  "length (arg (SymbolicQr_reset n F S T m)) =
     max (max (max (length (arg m)) (sz_arg F)) (sz_arg S)) (sz_arg T)"
  "length (res (SymbolicQr_reset n F S T m)) =
     max (max (max (length (res m)) (sz_res F)) (sz_res S)) (sz_res T)"
  "length (iw (SymbolicQr_reset n F S T m)) =
     max (max (max (length (iw m)) (sz_iw F)) (sz_iw S)) (sz_iw T)"
  "length (w (SymbolicQr_reset n F S T m)) =
     max (max (max (length (w m)) (sz_w F)) (sz_w S)) (sz_w T) + n"
  by (simp_all add: SymbolicQr_reset_def Let_def alloc_sizes alloc_fields length_resize
      SymbolicQrMemory_alloc_def)

text \<open>
  Claim C10. \<open>SymbolicQrMemory::alloc\<close> never shrinks a work vector: after \<open>alloc(f)\<close>
  each of \<open>arg\<close>, \<open>res\<close>, \<open>iw\<close> and \<open>w\<close> has as its size the maximum of its previous size
  and the requirement of \<open>f\<close>. Hence after any run of \<open>alloc\<close> calls every vector is at
  least as long as it was before, and at least as long as every Function allocated so far
  requires.
\<close>

theorem SymbolicQrMemory_alloc_monotone:
  "length (arg (SymbolicQrMemory_alloc f m)) = max (length (arg m)) (sz_arg f) \<and>
   length (res (SymbolicQrMemory_alloc f m)) = max (length (res m)) (sz_res f) \<and>
   length (iw (SymbolicQrMemory_alloc f m)) = max (length (iw m)) (sz_iw f) \<and>
   length (w (SymbolicQrMemory_alloc f m)) = max (length (w m)) (sz_w f) \<and>
   length (arg m) \<le> length (arg (alloc_all fs m)) \<and>
   length (res m) \<le> length (res (alloc_all fs m)) \<and>
   length (iw m) \<le> length (iw (alloc_all fs m)) \<and>
   length (w m) \<le> length (w (alloc_all fs m)) \<and>
   (\<forall>g \<in> set fs.
      sz_arg g \<le> length (arg (alloc_all fs m)) \<and>
      sz_res g \<le> length (res (alloc_all fs m)) \<and>
      sz_iw g \<le> length (iw (alloc_all fs m)) \<and>
      sz_w g \<le> length (w (alloc_all fs m)))"
proof -
  have "\<forall>g \<in> set fs.
      sz_arg g \<le> length (arg (alloc_all fs m)) \<and>
      sz_res g \<le> length (res (alloc_all fs m)) \<and>
      sz_iw g \<le> length (iw (alloc_all fs m)) \<and>
      sz_w g \<le> length (w (alloc_all fs m))"
    using alloc_all_covers by blast
  with alloc_all_grows [of m fs] show ?thesis
    by (simp add: alloc_sizes)
qed

theorem SymbolicQrMemory_alloc_monotone_witness:
  "length (arg (alloc_all [diag_fact, diag_solv] fresh_mem)) = 3 \<and>
   length (w (alloc_all [diag_fact, diag_solv] fresh_mem)) = 4 \<and>
   sz_arg diag_solv \<le> length (arg (alloc_all [diag_fact, diag_solv] fresh_mem)) \<and>
   sz_w diag_fact \<le> length (w (alloc_all [diag_fact, diag_solv] fresh_mem))"
  using SymbolicQrMemory_alloc_monotone [of diag_fact fresh_mem "[diag_fact, diag_solv]"]
  by (simp add: alloc_all_simps alloc_sizes alloc_fields) (simp add: diag_fact_def diag_solv_def fresh_mem_def)

text \<open>
  Claim C4, as the code has it. After \<open>SymbolicQr::reset\<close> the vectors \<open>arg\<close>, \<open>res\<close> and
  \<open>iw\<close> have the elementwise maximum of their previous sizes and of the requirements of
  the three generated Functions, and \<open>w\<close> has that maximum plus one block of \<open>nrow\<close>
  entries: a single temporary, into which \<open>solve\<close> copies each right-hand side in turn.
  The factor storage \<open>q\<close>, \<open>r\<close> has the sizes of the two outputs of the factorization.
  Hence, for Functions of the expected arity whose pointer requirements cover their
  inputs and outputs, the memory is ready for every later \<open>factorize\<close> and \<open>solve\<close>,
  transposed or not and for any number of right-hand sides: the pointer slots that are
  written exist, and \<open>w\<close> holds the temporary together with the scratch of the Function
  behind it.
\<close>

theorem SymbolicQr_reset_scratch:
  "length (arg (SymbolicQr_reset n F S T m)) =
     max (max (max (length (arg m)) (sz_arg F)) (sz_arg S)) (sz_arg T) \<and>
   length (res (SymbolicQr_reset n F S T m)) =
     max (max (max (length (res m)) (sz_res F)) (sz_res S)) (sz_res T) \<and>
   length (iw (SymbolicQr_reset n F S T m)) =
     max (max (max (length (iw m)) (sz_iw F)) (sz_iw S)) (sz_iw T) \<and>
   length (w (SymbolicQr_reset n F S T m)) =
     max (max (max (length (w m)) (sz_w F)) (sz_w S)) (sz_w T) + n \<and>
   nrow (SymbolicQr_reset n F S T m) = n \<and>
   factorize (SymbolicQr_reset n F S T m) = F \<and>
   solve (SymbolicQr_reset n F S T m) = S \<and>
   solveT (SymbolicQr_reset n F S T m) = T \<and>
   length (q (SymbolicQr_reset n F S T m)) = nnz_out F ! 0 \<and>
   length (r (SymbolicQr_reset n F S T m)) = nnz_out F ! 1 \<and>
   (n_in F = 1 \<and> n_out F = 2 \<and> n_in F \<le> sz_arg F \<and> n_out F \<le> sz_res F \<longrightarrow>
      factorize_ready \<lparr>mem = SymbolicQr_reset n F S T m, bufA = a, bufX = x\<rparr>) \<and>
   (n_in S = 3 \<and> n_out S = 1 \<and> nnz_in S ! 2 = n \<and> n_in S \<le> sz_arg S \<and> n_out S \<le> sz_res S \<longrightarrow>
      solve_ready S \<lparr>mem = SymbolicQr_reset n F S T m, bufA = a, bufX = x\<rparr>) \<and>
   (n_in T = 3 \<and> n_out T = 1 \<and> nnz_in T ! 2 = n \<and> n_in T \<le> sz_arg T \<and> n_out T \<le> sz_res T \<longrightarrow>
      solve_ready T \<lparr>mem = SymbolicQr_reset n F S T m, bufA = a, bufX = x\<rparr>)"
proof -
  have ready: "n_in F = 1 \<and> n_out F = 2 \<and> n_in F \<le> sz_arg F \<and> n_out F \<le> sz_res F \<longrightarrow>
      factorize_ready \<lparr>mem = SymbolicQr_reset n F S T m, bufA = a, bufX = x\<rparr>"
    by (auto simp add: factorize_ready_def reset_sizes reset_fields)
  have readyS: "n_in S = 3 \<and> n_out S = 1 \<and> nnz_in S ! 2 = n \<and> n_in S \<le> sz_arg S \<and>
      n_out S \<le> sz_res S \<longrightarrow>
      solve_ready S \<lparr>mem = SymbolicQr_reset n F S T m, bufA = a, bufX = x\<rparr>"
    by (auto simp add: solve_ready_def reset_sizes reset_fields)
  have readyT: "n_in T = 3 \<and> n_out T = 1 \<and> nnz_in T ! 2 = n \<and> n_in T \<le> sz_arg T \<and>
      n_out T \<le> sz_res T \<longrightarrow>
      solve_ready T \<lparr>mem = SymbolicQr_reset n F S T m, bufA = a, bufX = x\<rparr>"
    by (auto simp add: solve_ready_def reset_sizes reset_fields)
  from ready readyS readyT show ?thesis
    by (simp only: reset_sizes reset_fields)
qed

theorem SymbolicQr_reset_scratch_witness:
  "n_in diag_fact = 1 \<and> n_out diag_fact = 2 \<and> n_in diag_fact \<le> sz_arg diag_fact \<and>
   n_out diag_fact \<le> sz_res diag_fact \<and>
   n_in diag_solv = 3 \<and> n_out diag_solv = 1 \<and> nnz_in diag_solv ! 2 = 2 \<and>
   n_in diag_solv \<le> sz_arg diag_solv \<and> n_out diag_solv \<le> sz_res diag_solv \<and>
   length (w (SymbolicQr_reset 2 diag_fact diag_solv diag_solv fresh_mem)) = 6 \<and>
   factorize_ready
     \<lparr>mem = SymbolicQr_reset 2 diag_fact diag_solv diag_solv fresh_mem, bufA = [2, - 4],
      bufX = [2, 4, 6, 8]\<rparr> \<and>
   solve_ready diag_solv
     \<lparr>mem = SymbolicQr_reset 2 diag_fact diag_solv diag_solv fresh_mem, bufA = [2, - 4],
      bufX = [2, 4, 6, 8]\<rparr>"
proof -
  have hF: "n_in diag_fact = 1 \<and> n_out diag_fact = 2 \<and> n_in diag_fact \<le> sz_arg diag_fact \<and>
      n_out diag_fact \<le> sz_res diag_fact"
    by (simp add: diag_fact_def)
  have hS: "n_in diag_solv = 3 \<and> n_out diag_solv = 1 \<and> nnz_in diag_solv ! 2 = 2 \<and>
      n_in diag_solv \<le> sz_arg diag_solv \<and> n_out diag_solv \<le> sz_res diag_solv"
    by (simp add: diag_solv_def)
  note t = SymbolicQr_reset_scratch [of 2 diag_fact diag_solv diag_solv fresh_mem
      "[2, - 4]" "[2, 4, 6, 8]"]
  from t have "length (w (SymbolicQr_reset 2 diag_fact diag_solv diag_solv fresh_mem)) =
      max (max (max (length (w fresh_mem)) (sz_w diag_fact)) (sz_w diag_solv)) (sz_w diag_solv) + 2"
    by blast
  then have a: "length (w (SymbolicQr_reset 2 diag_fact diag_solv diag_solv fresh_mem)) = 6"
    by (simp add: fresh_mem_def diag_fact_def diag_solv_def)
  from t hF have b: "factorize_ready
     \<lparr>mem = SymbolicQr_reset 2 diag_fact diag_solv diag_solv fresh_mem, bufA = [2, - 4],
      bufX = [2, 4, 6, 8]\<rparr>"
    by blast
  from t hS have c: "solve_ready diag_solv
     \<lparr>mem = SymbolicQr_reset 2 diag_fact diag_solv diag_solv fresh_mem, bufA = [2, - 4],
      bufX = [2, 4, 6, 8]\<rparr>"
    by blast
  from hF hS a b c show ?thesis by blast
qed

text \<open>
  The scratch does not hold one temporary per right-hand side: in the instance, with
  \<open>nrow = 2\<close> and Functions that need up to four scratch words, two temporaries would
  take \<open>w\<close> to eight entries, and \<open>reset\<close> leaves it with six.
\<close>

theorem SymbolicQr_reset_one_temporary_counterexample:
  "\<not> (max (max (sz_w diag_fact) (sz_w diag_solv)) (sz_w diag_solv) + 2 * nrow diag_mem
        \<le> length (w diag_mem))"
  by (simp add: diag_mem_def reset_sizes reset_fields)
    (simp add: diag_fact_def diag_solv_def fresh_mem_def)

section \<open>Factorization and solution through the buffers\<close>

lemma length_overwrite: "length (overwrite off vs buf) = length buf"
  by (simp add: overwrite_def)

lemma length_fill_n: "length (fill_n buf n v) = length buf"
  by (simp add: fill_n_def length_overwrite)

lemma overwrite_all: "length vs = length buf \<Longrightarrow> overwrite 0 vs buf = vs"
  by (simp add: overwrite_def)

lemma factorize_effect:
  assumes "n_in (factorize (mem s)) = 1" "n_out (factorize (mem s)) = 2"
    "1 \<le> length (arg (mem s))" "2 \<le> length (res (mem s))"
  shows "q (mem (SymbolicQr_factorize s)) = overwrite 0 (factorize_outputs s ! 0) (q (mem s))"
    and "r (mem (SymbolicQr_factorize s)) = overwrite 0 (factorize_outputs s ! 1) (r (mem s))"
    and "bufA (SymbolicQr_factorize s) = bufA s"
    and "bufX (SymbolicQr_factorize s) = bufX s"
proof -
  define F where "F = factorize (mem s)"
  define av where "av = (fill_n (arg (mem s)) (n_in F) None)[0 := Some (RegA, 0)]"
  define rv where
    "rv = (fill_n (res (mem s)) (n_out F) None)[0 := Some (RegQ, 0), 1 := Some (RegR, 0)]"
  define s5 where "s5 = s\<lparr>mem := (mem s)\<lparr>arg := av, res := rv\<rparr>\<rparr>"
  have fact: "SymbolicQr_factorize s = fn_call F av rv (RegW, 0) s5"
    by (simp add: SymbolicQr_factorize_def Let_def F_def av_def rv_def s5_def)
  have av0: "av ! 0 = Some (RegA, 0)"
    using assms(3) by (simp add: av_def length_fill_n del: length_greater_0_conv)
  have rv0: "rv ! 0 = Some (RegQ, 0)" and rv1: "rv ! Suc 0 = Some (RegR, 0)"
    using assms(4) by (simp_all add: rv_def length_fill_n del: length_greater_0_conv)
  have ins: "fn_inputs F av s5 = [take (nnz_in F ! 0) (bufA s)]"
    using assms(1) av0 by (simp add: fn_inputs_def F_def [symmetric] buf_read_def s5_def)
  have outs: "fn_eval F (fn_inputs F av s5) = factorize_outputs s"
    unfolding ins by (simp add: factorize_outputs_def F_def)
  have "[0..<n_out F] = [0, Suc 0]"
    using assms(2) by (simp add: F_def [symmetric] upt_rec)
  then have call: "fn_call F av rv (RegW, 0) s5 =
      buf_write (RegR, 0) (factorize_outputs s ! Suc 0)
        (buf_write (RegQ, 0) (factorize_outputs s ! 0)
          (buf_write (RegW, 0) (take (sz_w F) (fn_work F (fn_inputs F av s5))) s5))"
    by (simp add: fn_call_def Let_def outs rv0 rv1)
  show "q (mem (SymbolicQr_factorize s)) = overwrite 0 (factorize_outputs s ! 0) (q (mem s))"
    unfolding fact call by (simp add: buf_write_def s5_def)
  show "r (mem (SymbolicQr_factorize s)) = overwrite 0 (factorize_outputs s ! 1) (r (mem s))"
    unfolding fact call by (simp add: buf_write_def s5_def)
  show "bufA (SymbolicQr_factorize s) = bufA s"
    unfolding fact call by (simp add: buf_write_def s5_def)
  show "bufX (SymbolicQr_factorize s) = bufX s"
    unfolding fact call by (simp add: buf_write_def s5_def)
qed

lemma solve_loop_Suc:
  "solve_loop solv (Suc k) xp s =
     solve_loop solv k (xp + nrow (mem (solve_step solv xp s))) (solve_step solv xp s)"
  by (simp add: Let_def)

lemma overwrite_mid:
  "off + length vs \<le> length buf \<Longrightarrow>
     overwrite off vs buf = take off buf @ vs @ drop (off + length vs) buf"
  by (simp add: overwrite_def)

lemma solve_step_effect:
  assumes inv: "solve_inv solv s"
    and x: "xp + nrow (mem s) \<le> length (bufX s)"
    and len: "length (solve_rhs solv (mem s) (take (nrow (mem s)) (drop xp (bufX s)))) = nrow (mem s)"
  shows "bufX (solve_step solv xp s) =
           take xp (bufX s) @ solve_rhs solv (mem s) (take (nrow (mem s)) (drop xp (bufX s)))
             @ drop (xp + nrow (mem s)) (bufX s)"
    and "q (mem (solve_step solv xp s)) = q (mem s)"
    and "r (mem (solve_step solv xp s)) = r (mem s)"
    and "nrow (mem (solve_step solv xp s)) = nrow (mem s)"
    and "bufA (solve_step solv xp s) = bufA s"
    and "solve_inv solv (solve_step solv xp s)"
proof -
  define n where "n = nrow (mem s)"
  define b where "b = take n (drop xp (bufX s))"
  define av where "av = (arg (mem s))[2 := Some (RegW, 0)]"
  define rv where "rv = (res (mem s))[0 := Some (RegX, xp)]"
  define s3 where "s3 = s\<lparr>mem := (mem s)\<lparr>w := overwrite 0 b (w (mem s)), arg := av, res := rv\<rparr>\<rparr>"
  from inv have nin: "n_in solv = 3" and nout: "n_out solv = 1"
    and nnz2: "nnz_in solv ! 2 = n"
    and la: "3 \<le> length (arg (mem s))" and lr: "1 \<le> length (res (mem s))"
    and lw: "n + sz_w solv \<le> length (w (mem s))"
    and a0: "arg (mem s) ! 0 = Some (RegQ, 0)" and a1: "arg (mem s) ! 1 = Some (RegR, 0)"
    by (simp_all add: solve_inv_def solve_ready_def n_def)
  have lb: "length b = n"
    using x by (simp add: b_def n_def)
  have step: "solve_step solv xp s = fn_call solv av rv (RegW, n) s3"
    by (simp add: solve_step_def solve_prepare_def Let_def buf_write_def buf_read_def
        s3_def av_def rv_def b_def n_def)
  have av0: "av ! 0 = Some (RegQ, 0)" and av1: "av ! Suc 0 = Some (RegR, 0)"
    and av2: "av ! 2 = Some (RegW, 0)"
    using la a0 a1 by (simp_all add: av_def)
  have rv0: "rv ! 0 = Some (RegX, xp)"
    using lr by (simp add: rv_def del: length_greater_0_conv)
  have "[0..<n_in solv] = [0, Suc 0, 2]"
    by (simp add: nin upt_rec numeral_3_eq_3 numeral_2_eq_2)
  then have ins: "fn_inputs solv av s3 =
      [take (nnz_in solv ! 0) (q (mem s)), take (nnz_in solv ! 1) (r (mem s)), b]"
    using lw lb
    by (simp add: fn_inputs_def av0 av1 av2 buf_read_def s3_def nnz2 overwrite_def)
  have outs: "fn_eval solv (fn_inputs solv av s3) ! 0 = solve_rhs solv (mem s) b"
    unfolding ins by (simp add: solve_rhs_def)
  have "[0..<n_out solv] = [0]"
    by (simp add: nout)
  then have call: "fn_call solv av rv (RegW, n) s3 =
      buf_write (RegX, xp) (solve_rhs solv (mem s) b)
        (buf_write (RegW, n) (take (sz_w solv) (fn_work solv (fn_inputs solv av s3))) s3)"
    by (simp add: fn_call_def Let_def outs rv0)
  have lsol: "length (solve_rhs solv (mem s) b) = n"
    using len by (simp add: b_def n_def)
  show "bufX (solve_step solv xp s) =
           take xp (bufX s) @ solve_rhs solv (mem s) (take (nrow (mem s)) (drop xp (bufX s)))
             @ drop (xp + nrow (mem s)) (bufX s)"
    unfolding step call using x lsol
    by (simp add: buf_write_def s3_def overwrite_mid b_def [symmetric] n_def [symmetric])
  show "q (mem (solve_step solv xp s)) = q (mem s)"
    unfolding step call by (simp add: buf_write_def s3_def)
  show "r (mem (solve_step solv xp s)) = r (mem s)"
    unfolding step call by (simp add: buf_write_def s3_def)
  show "nrow (mem (solve_step solv xp s)) = nrow (mem s)"
    unfolding step call by (simp add: buf_write_def s3_def)
  show "bufA (solve_step solv xp s) = bufA s"
    unfolding step call by (simp add: buf_write_def s3_def)
  show "solve_inv solv (solve_step solv xp s)"
    unfolding step call using inv la lr a0 a1
    by (simp add: solve_inv_def solve_ready_def buf_write_def s3_def length_overwrite
        av_def rv_def)
qed

lemma solve_rhs_cong:
  "q m' = q m \<Longrightarrow> r m' = r m \<Longrightarrow> solve_rhs solv m' = solve_rhs solv m"
  by (rule ext) (simp add: solve_rhs_def)

lemma drop_spliced:
  assumes "xp + n \<le> length X" "length S = n"
  shows "drop (xp + n + j) (take xp X @ S @ drop (xp + n) X) = drop (xp + n + j) X"
    and "take (xp + n) (take xp X @ S @ drop (xp + n) X) = take xp X @ S"
    and "length (take xp X @ S @ drop (xp + n) X) = length X"
  using assms by (simp_all add: add.commute add.left_commute)

lemma solve_loop_effect:
  assumes "solve_inv solv s"
    and "xp + k * nrow (mem s) \<le> length (bufX s)"
    and "\<forall>b. length b = nrow (mem s) \<longrightarrow> length (solve_rhs solv (mem s) b) = nrow (mem s)"
  shows "bufX (solve_loop solv k xp s) =
           take xp (bufX s) @
           concat (map (\<lambda>i. solve_rhs solv (mem s)
                          (take (nrow (mem s)) (drop (xp + i * nrow (mem s)) (bufX s)))) [0..<k]) @
           drop (xp + k * nrow (mem s)) (bufX s) \<and>
         q (mem (solve_loop solv k xp s)) = q (mem s) \<and>
         r (mem (solve_loop solv k xp s)) = r (mem s) \<and>
         bufA (solve_loop solv k xp s) = bufA s"
  using assms
proof (induction k arbitrary: xp s)
  case 0
  then show ?case by simp
next
  case (Suc k)
  define n where "n = nrow (mem s)"
  define X where "X = bufX s"
  define S where "S = solve_rhs solv (mem s) (take n (drop xp X))"
  define s' where "s' = solve_step solv xp s"
  from Suc.prems(2) have x: "xp + n \<le> length X" and xk: "xp + n + k * n \<le> length X"
    by (simp_all add: n_def X_def)
  have lS: "length S = n"
    using Suc.prems(3) x by (simp add: S_def n_def X_def)
  note eff = solve_step_effect [OF Suc.prems(1), of xp, folded n_def X_def S_def s'_def]
  have X': "bufX s' = take xp X @ S @ drop (xp + n) X"
    using x lS by (simp add: eff S_def)
  have q': "q (mem s') = q (mem s)" and r': "r (mem s') = r (mem s)"
    and n': "nrow (mem s') = n" and A': "bufA s' = bufA s" and inv': "solve_inv solv s'"
    using x lS by (simp_all add: eff S_def)
  have sol': "solve_rhs solv (mem s') = solve_rhs solv (mem s)"
    by (rule solve_rhs_cong [OF q' r'])
  have len': "xp + n + k * nrow (mem s') \<le> length (bufX s')"
    using xk x lS by (simp add: n' X')
  have out': "\<forall>b. length b = nrow (mem s') \<longrightarrow> length (solve_rhs solv (mem s') b) = nrow (mem s')"
    using Suc.prems(3) by (simp add: n' sol' n_def)
  note IH = Suc.IH [OF inv' len' out', unfolded n' sol' q' r' A']
  have loop: "solve_loop solv (Suc k) xp s = solve_loop solv k (xp + n) s'"
    using solve_loop_Suc [of solv k xp s] by (simp only: s'_def [symmetric] n')
  have segs: "map (\<lambda>i. solve_rhs solv (mem s) (take n (drop (xp + i * n) X))) [0..<Suc k] =
      S # map (\<lambda>i. solve_rhs solv (mem s) (take n (drop (xp + n + i * n) X))) [0..<k]"
    by (simp add: upt_conv_Cons map_Suc_upt [symmetric] S_def add.assoc del: upt_Suc)
  have "bufX (solve_loop solv (Suc k) xp s) =
      take xp X @
      concat (map (\<lambda>i. solve_rhs solv (mem s) (take n (drop (xp + i * n) X))) [0..<Suc k]) @
      drop (xp + Suc k * n) X"
    unfolding loop segs using IH x lS
    by (simp add: X' drop_spliced add.assoc add.commute add.left_commute)
  moreover have "q (mem (solve_loop solv (Suc k) xp s)) = q (mem s)"
    unfolding loop using IH by simp
  moreover have "r (mem (solve_loop solv (Suc k) xp s)) = r (mem s)"
    unfolding loop using IH by simp
  moreover have "bufA (solve_loop solv (Suc k) xp s) = bufA s"
    unfolding loop using IH by simp
  ultimately show ?case
    by (simp only: n_def X_def)
qed

lemma solve_run:
  "SymbolicQr_solve nrhs tr s = solve_loop (selected tr (mem s)) (nat nrhs) 0 (solve_setup tr s)"
  by (simp add: SymbolicQr_solve_def solve_setup_def selected_def Let_def)

lemma solve_setup_effect:
  assumes "solve_ready (selected tr (mem s)) s"
  shows "solve_inv (selected tr (mem s)) (solve_setup tr s)"
    and "bufX (solve_setup tr s) = bufX s" and "bufA (solve_setup tr s) = bufA s"
    and "q (mem (solve_setup tr s)) = q (mem s)" and "r (mem (solve_setup tr s)) = r (mem s)"
    and "nrow (mem (solve_setup tr s)) = nrow (mem s)"
    and "w (mem (solve_setup tr s)) = w (mem s)"
proof -
  from assms have la: "3 \<le> length (arg (mem s))"
    by (simp add: solve_ready_def)
  then have "arg (mem (solve_setup tr s)) ! 0 = Some (RegQ, 0)"
    "arg (mem (solve_setup tr s)) ! 1 = Some (RegR, 0)"
    by (simp_all add: solve_setup_def Let_def length_fill_n del: length_greater_0_conv)
  moreover have "solve_ready (selected tr (mem s)) (solve_setup tr s)"
    using assms by (simp add: solve_ready_def solve_setup_def Let_def length_fill_n)
  ultimately show "solve_inv (selected tr (mem s)) (solve_setup tr s)"
    by (simp add: solve_inv_def)
  show "bufX (solve_setup tr s) = bufX s" "bufA (solve_setup tr s) = bufA s"
    "q (mem (solve_setup tr s)) = q (mem s)" "r (mem (solve_setup tr s)) = r (mem s)"
    "nrow (mem (solve_setup tr s)) = nrow (mem s)" "w (mem (solve_setup tr s)) = w (mem s)"
    by (simp_all add: solve_setup_def Let_def)
qed

lemma buf_write_nrow: "nrow (mem (buf_write p vs s)) = nrow (mem s)"
  by (cases "fst p") (simp_all add: buf_write_def)

lemma fold_write_nrow:
  "nrow (mem (fold (\<lambda>j t. case rv ! j of None \<Rightarrow> t | Some p \<Rightarrow> buf_write p (outs ! j) t) js s)) =
     nrow (mem s)"
  by (induction js arbitrary: s) (simp_all add: buf_write_nrow split: option.splits)

lemma fn_call_nrow: "nrow (mem (fn_call f av rv wp s)) = nrow (mem s)"
  by (simp add: fn_call_def Let_def fold_write_nrow buf_write_nrow)

lemma solve_prepare_nrow: "nrow (mem (solve_prepare xp s)) = nrow (mem s)"
  by (simp add: solve_prepare_def Let_def buf_write_nrow)

lemma solve_step_nrow: "nrow (mem (solve_step solv xp s)) = nrow (mem s)"
  by (simp add: solve_step_def Let_def fn_call_nrow solve_prepare_nrow)

lemma solve_loop_nrow: "nrow (mem (solve_loop solv k xp s)) = nrow (mem s)"
  by (induction k arbitrary: xp s) (simp_all add: Let_def solve_step_nrow)

lemma solve_loop_snoc:
  "solve_loop solv (Suc k) xp s =
     solve_step solv (xp + k * nrow (mem s)) (solve_loop solv k xp s)"
proof (induction k arbitrary: xp s)
  case 0
  show ?case by (simp add: Let_def)
next
  case (Suc k)
  define s' where "s' = solve_step solv xp s"
  have n': "nrow (mem s') = nrow (mem s)"
    by (simp add: s'_def solve_step_nrow)
  have "solve_loop solv (Suc (Suc k)) xp s = solve_loop solv (Suc k) (xp + nrow (mem s)) s'"
    using solve_loop_Suc [of solv "Suc k" xp s] by (simp only: s'_def [symmetric] n')
  also have "\<dots> = solve_step solv (xp + nrow (mem s) + k * nrow (mem s'))
      (solve_loop solv k (xp + nrow (mem s)) s')"
    by (rule Suc.IH)
  also have "solve_loop solv k (xp + nrow (mem s)) s' = solve_loop solv (Suc k) xp s"
    using solve_loop_Suc [of solv k xp s] by (simp only: s'_def [symmetric] n')
  finally show ?case
    by (simp add: n' add.assoc)
qed

lemma solve_loop_inv:
  assumes "solve_inv solv s"
    and "xp + k * nrow (mem s) \<le> length (bufX s)"
    and "\<forall>b. length b = nrow (mem s) \<longrightarrow> length (solve_rhs solv (mem s) b) = nrow (mem s)"
  shows "solve_inv solv (solve_loop solv k xp s)"
  using assms
proof (induction k arbitrary: xp s)
  case 0
  then show ?case by simp
next
  case (Suc k)
  define n where "n = nrow (mem s)"
  define s' where "s' = solve_step solv xp s"
  from Suc.prems(2) have x: "xp + nrow (mem s) \<le> length (bufX s)"
    by simp
  have lS: "length (solve_rhs solv (mem s) (take (nrow (mem s)) (drop xp (bufX s)))) = nrow (mem s)"
    using Suc.prems(3) x by simp
  note eff = solve_step_effect [OF Suc.prems(1) x lS, folded s'_def]
  have sol': "solve_rhs solv (mem s') = solve_rhs solv (mem s)"
    by (rule solve_rhs_cong [OF eff(2) eff(3)])
  have len': "xp + nrow (mem s) + k * nrow (mem s') \<le> length (bufX s')"
    using Suc.prems(2) x lS by (simp add: eff)
  have out': "\<forall>b. length b = nrow (mem s') \<longrightarrow> length (solve_rhs solv (mem s') b) = nrow (mem s')"
    using Suc.prems(3) by (simp add: eff(4) sol')
  from Suc.IH [OF eff(6) len' out'] show ?case
    using solve_loop_Suc [of solv k xp s] by (simp only: s'_def [symmetric] eff(4))
qed

lemma solve_prepare_effect:
  assumes inv: "solve_inv solv s"
    and x: "xp + nrow (mem s) \<le> length (bufX s)"
  shows "take (nrow (mem s)) (w (mem (solve_prepare xp s))) =
           take (nrow (mem s)) (drop xp (bufX s))"
    and "drop (nrow (mem s)) (w (mem (solve_prepare xp s))) = drop (nrow (mem s)) (w (mem s))"
    and "arg (mem (solve_prepare xp s)) ! 0 = Some (RegQ, 0)"
    and "arg (mem (solve_prepare xp s)) ! 1 = Some (RegR, 0)"
    and "arg (mem (solve_prepare xp s)) ! 2 = Some (RegW, 0)"
    and "res (mem (solve_prepare xp s)) ! 0 = Some (RegX, xp)"
    and "fn_inputs solv (arg (mem (solve_prepare xp s))) (solve_prepare xp s) =
           [take (nnz_in solv ! 0) (q (mem s)), take (nnz_in solv ! 1) (r (mem s)),
            take (nrow (mem s)) (drop xp (bufX s))]"
    and "bufX (solve_prepare xp s) = bufX s"
proof -
  define n where "n = nrow (mem s)"
  define b where "b = take n (drop xp (bufX s))"
  define av where "av = (arg (mem s))[2 := Some (RegW, 0)]"
  define rv where "rv = (res (mem s))[0 := Some (RegX, xp)]"
  define s3 where "s3 = s\<lparr>mem := (mem s)\<lparr>w := overwrite 0 b (w (mem s)), arg := av, res := rv\<rparr>\<rparr>"
  from inv have nin: "n_in solv = 3"
    and nnz2: "nnz_in solv ! 2 = n"
    and la: "3 \<le> length (arg (mem s))" and lr: "1 \<le> length (res (mem s))"
    and lw: "n + sz_w solv \<le> length (w (mem s))"
    and a0: "arg (mem s) ! 0 = Some (RegQ, 0)" and a1: "arg (mem s) ! 1 = Some (RegR, 0)"
    by (simp_all add: solve_inv_def solve_ready_def n_def)
  have lb: "length b = n"
    using x by (simp add: b_def n_def)
  have p: "solve_prepare xp s = s3"
    by (simp add: solve_prepare_def Let_def buf_write_def buf_read_def s3_def av_def rv_def
        b_def n_def)
  have av0: "av ! 0 = Some (RegQ, 0)" and av1: "av ! Suc 0 = Some (RegR, 0)"
    and av2: "av ! 2 = Some (RegW, 0)"
    using la a0 a1 by (simp_all add: av_def)
  have rv0: "rv ! 0 = Some (RegX, xp)"
    using lr by (simp add: rv_def del: length_greater_0_conv)
  have "[0..<n_in solv] = [0, Suc 0, 2]"
    by (simp add: nin upt_rec numeral_3_eq_3 numeral_2_eq_2)
  then have ins: "fn_inputs solv av s3 =
      [take (nnz_in solv ! 0) (q (mem s)), take (nnz_in solv ! 1) (r (mem s)), b]"
    using lw lb
    by (simp add: fn_inputs_def av0 av1 av2 buf_read_def s3_def nnz2 overwrite_def)
  show "take (nrow (mem s)) (w (mem (solve_prepare xp s))) =
           take (nrow (mem s)) (drop xp (bufX s))"
    using lw lb unfolding p by (simp add: s3_def overwrite_def n_def [symmetric] b_def [symmetric])
  show "drop (nrow (mem s)) (w (mem (solve_prepare xp s))) = drop (nrow (mem s)) (w (mem s))"
    using lw lb unfolding p by (simp add: s3_def overwrite_def n_def [symmetric])
  show "arg (mem (solve_prepare xp s)) ! 0 = Some (RegQ, 0)"
    unfolding p using av0 by (simp add: s3_def)
  show "arg (mem (solve_prepare xp s)) ! 1 = Some (RegR, 0)"
    unfolding p using av1 by (simp add: s3_def)
  show "arg (mem (solve_prepare xp s)) ! 2 = Some (RegW, 0)"
    unfolding p using av2 by (simp add: s3_def)
  show "res (mem (solve_prepare xp s)) ! 0 = Some (RegX, xp)"
    unfolding p using rv0 by (simp add: s3_def)
  show "fn_inputs solv (arg (mem (solve_prepare xp s))) (solve_prepare xp s) =
           [take (nnz_in solv ! 0) (q (mem s)), take (nnz_in solv ! 1) (r (mem s)),
            take (nrow (mem s)) (drop xp (bufX s))]"
    unfolding p using ins by (simp add: s3_def b_def n_def)
  show "bufX (solve_prepare xp s) = bufX s"
    unfolding p by (simp add: s3_def)
qed

lemma solve_loop_add:
  "solve_loop solv (a + b) xp s =
     solve_loop solv b (xp + a * nrow (mem s)) (solve_loop solv a xp s)"
proof (induction a arbitrary: xp s)
  case 0
  show ?case by simp
next
  case (Suc a)
  define s' where "s' = solve_step solv xp s"
  have n': "nrow (mem s') = nrow (mem s)"
    by (simp add: s'_def solve_step_nrow)
  have "solve_loop solv (Suc a + b) xp s = solve_loop solv (a + b) (xp + nrow (mem s)) s'"
    using solve_loop_Suc [of solv "a + b" xp s] by (simp only: s'_def [symmetric] n' add_Suc)
  also have "\<dots> = solve_loop solv b (xp + nrow (mem s) + a * nrow (mem s'))
      (solve_loop solv a (xp + nrow (mem s)) s')"
    by (rule Suc.IH)
  also have "solve_loop solv a (xp + nrow (mem s)) s' = solve_loop solv (Suc a) xp s"
    using solve_loop_Suc [of solv a xp s] by (simp only: s'_def [symmetric] n')
  finally show ?case
    by (simp add: n' add.assoc)
qed

lemma length_concat_blocks:
  "\<forall>j<i. length (f j) = n \<Longrightarrow> length (concat (map f [0..<i])) = i * n"
  by (induction i) simp_all

lemma diag_mem_eval:
  "nrow diag_mem = 2" "solve diag_mem = diag_solv" "solveT diag_mem = diag_solv"
  "factorize diag_mem = diag_fact"
  "length (arg diag_mem) = 3" "length (res diag_mem) = 2" "length (w diag_mem) = 6"
  by (simp_all add: diag_mem_def reset_fields reset_sizes diag_solv_def diag_fact_def
      fresh_mem_def)

lemma diag_factorize_outputs:
  "factorize_outputs (diag_state qs rs as xs) = [map sgn (take 2 as), map abs (take 2 as)]"
  by (simp add: factorize_outputs_def diag_state_def diag_mem_eval) (simp add: diag_fact_def)

lemma diag_factorize_ready: "factorize_ready (diag_state qs rs as xs)"
  unfolding factorize_ready_def
  by (simp add: diag_state_def diag_mem_eval) (simp add: diag_fact_def)

text \<open>
  Claim C3. \<open>SymbolicQr::solve\<close> treats the \<open>nrhs\<close> right-hand sides, stored one after
  the other with \<open>nrow\<close> entries each, independently and in ascending order. Segment \<open>i\<close>
  of the caller's buffer is replaced by the first output of the selected Function
  (\<open>solveT\<close> when \<open>tr\<close> holds, \<open>solve\<close> otherwise) on the stored \<open>q\<close>, the stored \<open>r\<close> and,
  as third input, the \<open>nrow\<close> entries of that same segment; no other segment enters. The
  buffer behind the last segment, the stored factors and the caller's matrix are
  untouched. In iteration \<open>i\<close>, at the call: the first \<open>nrow\<close> entries of \<open>w\<close> hold the
  copy of segment \<open>i\<close> and the rest of \<open>w\<close> is as before; the argument pointers are
  \<open>q\<close>, \<open>r\<close> and the start of \<open>w\<close>, and the result pointer is the start of segment \<open>i\<close>;
  the inputs that the Function reads through them are the stored factors and the copy.
  The call with the scratch behind the copy then gives the state after \<open>i + 1\<close>
  right-hand sides, from which the remaining iterations continue.
\<close>

theorem SymbolicQr_solve_rhs_independent:
  assumes "solve_ready (selected tr (mem s)) s"
    and "nat nrhs * nrow (mem s) \<le> length (bufX s)"
    and "\<forall>b. length b = nrow (mem s) \<longrightarrow>
           length (solve_rhs (selected tr (mem s)) (mem s) b) = nrow (mem s)"
  shows "bufX (SymbolicQr_solve nrhs tr s) =
           concat (map (\<lambda>i. solve_rhs (selected tr (mem s)) (mem s) (rhs_segment s i))
                    [0..<nat nrhs]) @
           drop (nat nrhs * nrow (mem s)) (bufX s) \<and>
         q (mem (SymbolicQr_solve nrhs tr s)) = q (mem s) \<and>
         r (mem (SymbolicQr_solve nrhs tr s)) = r (mem s) \<and>
         bufA (SymbolicQr_solve nrhs tr s) = bufA s \<and>
         (\<forall>i<nat nrhs.
            take (nrow (mem s)) (w (mem (prepared tr s i))) = rhs_segment s i \<and>
            drop (nrow (mem s)) (w (mem (prepared tr s i))) =
              drop (nrow (mem s)) (w (mem (SymbolicQr_solve (int i) tr s))) \<and>
            arg (mem (prepared tr s i)) ! 0 = Some (RegQ, 0) \<and>
            arg (mem (prepared tr s i)) ! 1 = Some (RegR, 0) \<and>
            arg (mem (prepared tr s i)) ! 2 = Some (RegW, 0) \<and>
            res (mem (prepared tr s i)) ! 0 = Some (RegX, i * nrow (mem s)) \<and>
            q (mem (prepared tr s i)) = q (mem s) \<and>
            r (mem (prepared tr s i)) = r (mem s) \<and>
            fn_inputs (selected tr (mem s)) (arg (mem (prepared tr s i))) (prepared tr s i) =
              [take (nnz_in (selected tr (mem s)) ! 0) (q (mem s)),
               take (nnz_in (selected tr (mem s)) ! 1) (r (mem s)),
               rhs_segment s i] \<and>
            SymbolicQr_solve (int (Suc i)) tr s =
              fn_call (selected tr (mem s)) (arg (mem (prepared tr s i)))
                (res (mem (prepared tr s i))) (RegW, nrow (mem s)) (prepared tr s i) \<and>
            SymbolicQr_solve nrhs tr s =
              solve_loop (selected tr (mem s)) (nat nrhs - Suc i) (Suc i * nrow (mem s))
                (SymbolicQr_solve (int (Suc i)) tr s))"
proof -
  define solv where "solv = selected tr (mem s)"
  define n where "n = nrow (mem s)"
  define X where "X = bufX s"
  define s0 where "s0 = solve_setup tr s"
  note st0 = solve_setup_effect [OF assms(1), folded solv_def s0_def n_def X_def]
  have run: "SymbolicQr_solve k tr s = solve_loop solv (nat k) 0 s0" for k
    by (simp add: solve_run solv_def s0_def)
  have runn: "SymbolicQr_solve (int k) tr s = solve_loop solv k 0 s0" for k
    by (simp add: run)
  have sol: "solve_rhs solv (mem s0) = solve_rhs solv (mem s)"
    by (rule solve_rhs_cong [OF st0(4) st0(5)])
  have out: "\<forall>b. length b = nrow (mem s0) \<longrightarrow> length (solve_rhs solv (mem s0) b) = nrow (mem s0)"
    using assms(3) by (simp add: st0 sol solv_def [symmetric] n_def [symmetric])
  have eff: "bufX (solve_loop solv k 0 s0) =
        concat (map (\<lambda>i. solve_rhs solv (mem s) (rhs_segment s i)) [0..<k]) @ drop (k * n) X \<and>
      q (mem (solve_loop solv k 0 s0)) = q (mem s) \<and>
      r (mem (solve_loop solv k 0 s0)) = r (mem s) \<and>
      bufA (solve_loop solv k 0 s0) = bufA s \<and>
      solve_inv solv (solve_loop solv k 0 s0)"
    if k: "k * n \<le> length X" for k
  proof -
    have len: "0 + k * nrow (mem s0) \<le> length (bufX s0)"
      using k by (simp add: st0)
    from solve_loop_effect [OF st0(1) len out] solve_loop_inv [OF st0(1) len out]
    show ?thesis
      by (simp add: st0 sol rhs_segment_def n_def X_def)
  qed
  have main: "nat nrhs * n \<le> length X"
    using assms(2) by (simp add: n_def X_def)
  have steps: "take n (w (mem (prepared tr s i))) = rhs_segment s i \<and>
      drop n (w (mem (prepared tr s i))) = drop n (w (mem (SymbolicQr_solve (int i) tr s))) \<and>
      arg (mem (prepared tr s i)) ! 0 = Some (RegQ, 0) \<and>
      arg (mem (prepared tr s i)) ! 1 = Some (RegR, 0) \<and>
      arg (mem (prepared tr s i)) ! 2 = Some (RegW, 0) \<and>
      res (mem (prepared tr s i)) ! 0 = Some (RegX, i * n) \<and>
      q (mem (prepared tr s i)) = q (mem s) \<and>
      r (mem (prepared tr s i)) = r (mem s) \<and>
      fn_inputs solv (arg (mem (prepared tr s i))) (prepared tr s i) =
        [take (nnz_in solv ! 0) (q (mem s)), take (nnz_in solv ! 1) (r (mem s)), rhs_segment s i] \<and>
      SymbolicQr_solve (int (Suc i)) tr s =
        fn_call solv (arg (mem (prepared tr s i))) (res (mem (prepared tr s i))) (RegW, n)
          (prepared tr s i) \<and>
      SymbolicQr_solve nrhs tr s =
        solve_loop solv (nat nrhs - Suc i) (Suc i * n) (SymbolicQr_solve (int (Suc i)) tr s)"
    if i: "i < nat nrhs" for i
  proof -
    define T where "T = solve_loop solv i 0 s0"
    define P where "P = solve_prepare (i * n) T"
    from i main have in1: "i * n + n \<le> length X"
      by (metis Suc_leI mult_Suc mult_le_mono1 add.commute le_trans)
    then have i_le: "i * n \<le> length X" by simp
    note e = eff [OF i_le, folded T_def]
    have Tn: "nrow (mem T) = n"
      by (simp add: T_def solve_loop_nrow st0)
    have "\<forall>j<i. length (solve_rhs solv (mem s) (rhs_segment s j)) = n"
    proof (intro allI impI)
      fix j assume "j < i"
      then have "j * n + n \<le> i * n"
        by (metis Suc_leI mult_Suc mult_le_mono1 add.commute)
      with i_le have "length (rhs_segment s j) = n"
        by (simp add: rhs_segment_def n_def [symmetric] X_def [symmetric])
      with assms(3) show "length (solve_rhs solv (mem s) (rhs_segment s j)) = n"
        by (simp add: solv_def n_def)
    qed
    from length_concat_blocks [OF this]
    have lc: "length (concat (map (\<lambda>i. solve_rhs solv (mem s) (rhs_segment s i)) [0..<i])) = i * n" .
    have dropT: "drop (i * n) (bufX T) = drop (i * n) X"
      using e lc by simp
    have lenT: "length (bufX T) = length X"
      using e lc i_le by simp
    have segT: "take n (drop (i * n) (bufX T)) = rhs_segment s i"
      by (simp add: dropT rhs_segment_def n_def [symmetric] X_def [symmetric])
    have xT: "i * n + nrow (mem T) \<le> length (bufX T)"
      using in1 by (simp add: Tn lenT)
    from e have invT: "solve_inv solv T" by simp
    note pe = solve_prepare_effect [OF invT xT, unfolded Tn, folded P_def, unfolded segT]
    have Teq: "SymbolicQr_solve (int i) tr s = T"
      unfolding T_def by (rule runn)
    have Peq: "prepared tr s i = P"
      by (simp add: prepared_def Teq P_def n_def)
    have Pn: "nrow (mem P) = n"
      by (simp add: P_def solve_prepare_nrow Tn)
    have Pq: "q (mem P) = q (mem s)" "r (mem P) = r (mem s)"
      using e by (simp_all add: P_def solve_prepare_def Let_def buf_write_def)
    have "SymbolicQr_solve (int (Suc i)) tr s = solve_loop solv (Suc i) 0 s0"
      by (rule runn)
    also have "\<dots> = solve_step solv (0 + i * nrow (mem s0)) T"
      unfolding T_def by (rule solve_loop_snoc)
    also have "\<dots> = fn_call solv (arg (mem P)) (res (mem P)) (RegW, n) P"
      by (simp add: solve_step_def Let_def st0 P_def [symmetric] Pn)
    finally have call: "SymbolicQr_solve (int (Suc i)) tr s =
        fn_call solv (arg (mem P)) (res (mem P)) (RegW, n) P" .
    from i have split: "nat nrhs = Suc i + (nat nrhs - Suc i)" by simp
    have "SymbolicQr_solve nrhs tr s = solve_loop solv (Suc i + (nat nrhs - Suc i)) 0 s0"
      using run [of nrhs] split by simp
    also have "\<dots> = solve_loop solv (nat nrhs - Suc i) (0 + Suc i * nrow (mem s0))
        (solve_loop solv (Suc i) 0 s0)"
      by (rule solve_loop_add)
    also have "solve_loop solv (Suc i) 0 s0 = SymbolicQr_solve (int (Suc i)) tr s"
      by (rule runn [symmetric])
    finally have rest: "SymbolicQr_solve nrhs tr s =
        solve_loop solv (nat nrhs - Suc i) (Suc i * n) (SymbolicQr_solve (int (Suc i)) tr s)"
      by (simp add: st0)
    from pe e Pq call rest show ?thesis
      unfolding Peq Teq by simp
  qed
  from eff [OF main] steps show ?thesis
    unfolding run [of nrhs, symmetric] solv_def [symmetric] n_def [symmetric] X_def [symmetric]
    by blast
qed

theorem SymbolicQr_solve_rhs_independent_witness:
  "solve_ready (selected False (mem (diag_state [1, -1] [2, 4] [2, -4] [2, 4, 6, 8])))
     (diag_state [1, -1] [2, 4] [2, -4] [2, 4, 6, 8]) \<and>
   nat 2 * nrow (mem (diag_state [1, -1] [2, 4] [2, -4] [2, 4, 6, 8]))
     \<le> length (bufX (diag_state [1, -1] [2, 4] [2, -4] [2, 4, 6, 8])) \<and>
   bufX (SymbolicQr_solve 2 False (diag_state [1, -1] [2, 4] [2, -4] [2, 4, 6, 8])) =
     [1, -1, 3, -2] \<and>
   take 2 (w (mem (prepared False (diag_state [1, -1] [2, 4] [2, -4] [2, 4, 6, 8]) 1))) = [6, 8] \<and>
   arg (mem (prepared False (diag_state [1, -1] [2, 4] [2, -4] [2, 4, 6, 8]) 1)) ! 2 =
     Some (RegW, 0) \<and>
   res (mem (prepared False (diag_state [1, -1] [2, 4] [2, -4] [2, 4, 6, 8]) 1)) ! 0 =
     Some (RegX, 2) \<and>
   fn_inputs diag_solv (arg (mem (prepared False (diag_state [1, -1] [2, 4] [2, -4] [2, 4, 6, 8]) 1)))
     (prepared False (diag_state [1, -1] [2, 4] [2, -4] [2, 4, 6, 8]) 1) =
     [[1, -1], [2, 4], [6, 8]]"
proof -
  define s where "s = diag_state [1, -1] [2, 4] [2, -4] [2, 4, 6, 8]"
  have m: "nrow (mem s) = 2" "selected False (mem s) = diag_solv" "bufX s = [2, 4, 6, 8]"
    "q (mem s) = [1, -1]" "r (mem s) = [2, 4]"
    by (simp_all add: s_def diag_state_def diag_mem_eval selected_def)
  have h1: "solve_ready (selected False (mem s)) s"
    unfolding m solve_ready_def
    by (simp add: s_def diag_state_def diag_mem_eval) (simp add: diag_solv_def)
  have h2: "nat 2 * nrow (mem s) \<le> length (bufX s)"
    by (simp add: m)
  have h3: "\<forall>b. length b = nrow (mem s) \<longrightarrow>
      length (solve_rhs (selected False (mem s)) (mem s) b) = nrow (mem s)"
    by (simp add: m solve_rhs_def diag_solv_def)
  note t = SymbolicQr_solve_rhs_independent [OF h1 h2 h3]
  have seg: "rhs_segment s 0 = [2, 4]" "rhs_segment s (Suc 0) = [6, 8]"
    "rhs_segment s 1 = [6, 8]"
    by (simp_all add: rhs_segment_def m)
  have "[0..<nat 2] = [0, 1]"
    by (simp add: upt_rec)
  with t [THEN conjunct1]
  have a: "bufX (SymbolicQr_solve 2 False s) = [1, -1, 3, -2]"
    by (simp add: m seg solve_rhs_def diag_solv_def)
  have "(1::nat) < nat 2" by simp
  with t have step: "take (nrow (mem s)) (w (mem (prepared False s 1))) = rhs_segment s 1 \<and>
      arg (mem (prepared False s 1)) ! 2 = Some (RegW, 0) \<and>
      res (mem (prepared False s 1)) ! 0 = Some (RegX, 1 * nrow (mem s)) \<and>
      fn_inputs (selected False (mem s)) (arg (mem (prepared False s 1))) (prepared False s 1) =
        [take (nnz_in (selected False (mem s)) ! 0) (q (mem s)),
         take (nnz_in (selected False (mem s)) ! 1) (r (mem s)), rhs_segment s 1]"
    by blast
  then have b: "take 2 (w (mem (prepared False s 1))) = [6, 8]"
    and c: "arg (mem (prepared False s 1)) ! 2 = Some (RegW, 0)"
    and d: "res (mem (prepared False s 1)) ! 0 = Some (RegX, 2)"
    and e: "fn_inputs diag_solv (arg (mem (prepared False s 1))) (prepared False s 1) =
        [[1, -1], [2, 4], [6, 8]]"
    by (simp_all add: m seg) (simp add: diag_solv_def)
  from h1 h2 a b c d e show ?thesis
    unfolding s_def by blast
qed

text \<open>
  Claim C5, as the code has it. \<open>SymbolicQr::factorize\<close> calls the factorization Function
  with the nonzeros of \<open>A\<close> as its only input and lets it write its two outputs straight
  into the storage \<open>q\<close> and \<open>r\<close> of the memory. Whatever the Function computes replaces
  the factors stored before: \<open>factorize\<close> checks nothing and has no way to report a
  failure.
\<close>

theorem SymbolicQr_factorize_overwrites:
  assumes "factorize_ready s"
    and "length (factorize_outputs s ! 0) = length (q (mem s))"
    and "length (factorize_outputs s ! 1) = length (r (mem s))"
  shows "q (mem (SymbolicQr_factorize s)) = factorize_outputs s ! 0 \<and>
         r (mem (SymbolicQr_factorize s)) = factorize_outputs s ! 1 \<and>
         bufA (SymbolicQr_factorize s) = bufA s \<and>
         bufX (SymbolicQr_factorize s) = bufX s"
proof -
  from assms(1) have h: "n_in (factorize (mem s)) = 1" "n_out (factorize (mem s)) = 2"
    "1 \<le> length (arg (mem s))" "2 \<le> length (res (mem s))"
    by (simp_all add: factorize_ready_def)
  show ?thesis
    using assms(2,3) by (simp add: factorize_effect [OF h] overwrite_all)
qed

theorem SymbolicQr_factorize_overwrites_witness:
  "factorize_ready (diag_state [0, 0] [0, 0] [2, -4] []) \<and>
   length (factorize_outputs (diag_state [0, 0] [0, 0] [2, -4] []) ! 0) =
     length (q (mem (diag_state [0, 0] [0, 0] [2, -4] []))) \<and>
   length (factorize_outputs (diag_state [0, 0] [0, 0] [2, -4] []) ! 1) =
     length (r (mem (diag_state [0, 0] [0, 0] [2, -4] []))) \<and>
   q (mem (SymbolicQr_factorize (diag_state [0, 0] [0, 0] [2, -4] []))) = [1, -1] \<and>
   r (mem (SymbolicQr_factorize (diag_state [0, 0] [0, 0] [2, -4] []))) = [2, 4]"
proof -
  define s where "s = diag_state [0, 0] [0, 0] [2, -4] []"
  have h1: "factorize_ready s"
    unfolding s_def by (rule diag_factorize_ready)
  have h2: "length (factorize_outputs s ! 0) = length (q (mem s))"
    by (simp add: s_def diag_factorize_outputs) (simp add: diag_state_def)
  have h3: "length (factorize_outputs s ! 1) = length (r (mem s))"
    by (simp add: s_def diag_factorize_outputs) (simp add: diag_state_def)
  from SymbolicQr_factorize_overwrites [OF h1 h2 h3]
  have "q (mem (SymbolicQr_factorize s)) = [1, -1] \<and> r (mem (SymbolicQr_factorize s)) = [2, 4]"
    by (simp add: s_def diag_factorize_outputs)
  with h1 h2 h3 show ?thesis
    unfolding s_def by blast
qed

text \<open>
  The claim as stated fails: the factors of the matrix with diagonal \<open>2, -4\<close> are stored,
  and \<open>factorize\<close> is called on the singular matrix with diagonal \<open>0, 3\<close>. The stored
  \<open>r\<close> is overwritten by \<open>0, 3\<close>.
\<close>

theorem SymbolicQr_factorize_singular_counterexample:
  "\<not> (q (mem (SymbolicQr_factorize (diag_state [1, -1] [2, 4] [0, 3] []))) =
        q (mem (diag_state [1, -1] [2, 4] [0, 3] [])) \<and>
      r (mem (SymbolicQr_factorize (diag_state [1, -1] [2, 4] [0, 3] []))) =
        r (mem (diag_state [1, -1] [2, 4] [0, 3] [])))"
proof -
  define s where "s = diag_state [1, -1] [2, 4] [0, 3] []"
  have "factorize_ready s"
    unfolding s_def by (rule diag_factorize_ready)
  then have h: "n_in (factorize (mem s)) = 1" "n_out (factorize (mem s)) = 2"
    "1 \<le> length (arg (mem s))" "2 \<le> length (res (mem s))"
    by (simp_all add: factorize_ready_def)
  have "r (mem (SymbolicQr_factorize s)) = [0, 3]"
    unfolding factorize_effect(2) [OF h]
    by (simp add: s_def diag_factorize_outputs) (simp add: diag_state_def overwrite_def)
  moreover have "r (mem s) = [2, 4]"
    by (simp add: s_def diag_state_def)
  ultimately show ?thesis
    unfolding s_def by simp
qed


section \<open>Permutations and the permuted solve\<close>

lemma invert_prefix:
  assumes "is_permutation p" "m \<le> length p"
  shows "\<exists>iv. fold (invert_step p) [0..<m] (Some (replicate (length p) 0)) = Some iv \<and>
           length iv = length p \<and> (\<forall>k<m. iv ! (p ! k) = k)"
  using assms(2)
proof (induction m)
  case 0
  show ?case by simp
next
  case (Suc m)
  then obtain iv where
    run: "fold (invert_step p) [0..<m] (Some (replicate (length p) 0)) = Some iv"
    and len: "length iv = length p" and pre: "\<forall>k<m. iv ! (p ! k) = k"
    by auto
  from assms(1) Suc.prems have d: "distinct p" and pm: "p ! m < length p"
    by (simp_all add: is_permutation_def)
  have step: "fold (invert_step p) [0..<Suc m] (Some (replicate (length p) 0)) =
      Some (iv[p ! m := m])"
    using pm len by (simp add: run invert_step_def)
  have "\<forall>k<Suc m. iv[p ! m := m] ! (p ! k) = k"
  proof (intro allI impI)
    fix k assume k: "k < Suc m"
    show "iv[p ! m := m] ! (p ! k) = k"
    proof (cases "k = m")
      case True
      then show ?thesis using pm len by simp
    next
      case False
      with k have km: "k < m" by simp
      with Suc.prems d have "p ! k \<noteq> p ! m"
        by (simp add: nth_eq_iff_index_eq)
      then show ?thesis using pre km by simp
    qed
  qed
  with step len show ?case by simp
qed

lemma is_permutation_set:
  assumes "is_permutation p"
  shows "set p = {..<length p}"
proof (rule card_subset_eq)
  show "finite {..<length p}" by simp
  show "set p \<subseteq> {..<length p}"
    using assms by (auto simp: is_permutation_def)
  show "card (set p) = card {..<length p}"
    using assms by (simp add: is_permutation_def distinct_card)
qed

lemma invert_perm_correct:
  assumes "is_permutation p"
  shows "\<exists>iv. invert_perm p = Some iv \<and> length iv = length p \<and>
           (\<forall>k<length p. iv ! (p ! k) = k) \<and> (\<forall>j<length p. p ! (iv ! j) = j) \<and>
           is_permutation iv"
proof -
  from invert_prefix [OF assms, of "length p"] obtain iv where
    run: "invert_perm p = Some iv" and len: "length iv = length p"
    and left: "\<forall>k<length p. iv ! (p ! k) = k"
    by (auto simp: invert_perm_def)
  have right: "\<forall>j<length p. p ! (iv ! j) = j"
  proof (intro allI impI)
    fix j assume "j < length p"
    then have "j \<in> set p" by (simp add: is_permutation_set [OF assms])
    then obtain k where "k < length p" "p ! k = j"
      by (auto simp: in_set_conv_nth)
    with left show "p ! (iv ! j) = j" by auto
  qed
  have "is_permutation iv"
    unfolding is_permutation_def
  proof (intro conjI ballI)
    show "distinct iv"
      unfolding distinct_conv_nth
    proof (intro allI impI)
      fix i j assume "i < length iv" "j < length iv" "i \<noteq> j"
      with right len show "iv ! i \<noteq> iv ! j" by metis
    qed
  next
    fix i assume "i \<in> set iv"
    then obtain j where j: "j < length iv" "iv ! j = i"
      by (auto simp: in_set_conv_nth)
    then have "j \<in> set p" by (simp add: is_permutation_set [OF assms] len)
    then obtain k where k: "k < length p" "p ! k = j"
      by (auto simp: in_set_conv_nth)
    with left j have "i = k" by auto
    with k len show "i < length iv" by simp
  qed
  with run len left right show ?thesis by blast
qed

text \<open>
  Claim C2. For a column permutation that is a bijection on \<open>[0, n)\<close> the inversion loop
  of \<open>reset\<close> stays inside its vector and yields \<open>inv_colperm\<close> with
  \<open>inv_colperm[colperm[k]] = k\<close> for every \<open>k\<close>; composed with \<open>colperm\<close> in either order
  it is the identity on \<open>[0, n)\<close>. The same holds for the row permutation.
\<close>

theorem invert_perm_identity:
  assumes "is_permutation (colperm btf)" and "is_permutation (rowperm btf)"
  shows "\<exists>inv_colperm inv_rowperm.
           invert_perm (colperm btf) = Some inv_colperm \<and>
           invert_perm (rowperm btf) = Some inv_rowperm \<and>
           length inv_colperm = length (colperm btf) \<and>
           length inv_rowperm = length (rowperm btf) \<and>
           (\<forall>k<length (colperm btf). inv_colperm ! (colperm btf ! k) = k) \<and>
           (\<forall>k<length (colperm btf). colperm btf ! (inv_colperm ! k) = k) \<and>
           (\<forall>k<length (rowperm btf). inv_rowperm ! (rowperm btf ! k) = k) \<and>
           (\<forall>k<length (rowperm btf). rowperm btf ! (inv_rowperm ! k) = k)"
  using invert_perm_correct [OF assms(1)] invert_perm_correct [OF assms(2)]
  by blast


theorem invert_perm_identity_witness:
  "is_permutation (colperm \<lparr>rowperm = [1, 0, 2], colperm = [2, 0, 1]\<rparr>) \<and>
   is_permutation (rowperm \<lparr>rowperm = [1, 0, 2], colperm = [2, 0, 1]\<rparr>) \<and>
   (\<exists>ic ir. invert_perm [2, 0, 1] = Some ic \<and> invert_perm [1, 0, 2] = Some ir \<and>
      ic ! 2 = 0 \<and> ic ! 0 = 1 \<and> ic ! 1 = 2 \<and> [1, 0, 2] ! (ir ! 0) = (0::nat))"
proof -
  have h1: "is_permutation (colperm \<lparr>rowperm = [1, 0, 2], colperm = [2, 0, 1]\<rparr>)"
    and h2: "is_permutation (rowperm \<lparr>rowperm = [1, 0, 2], colperm = [2, 0, 1]\<rparr>)"
    by (simp_all add: is_permutation_def)
  from invert_perm_identity [OF h1 h2] obtain ic ir where
    run: "invert_perm [2, 0, 1] = Some ic" "invert_perm [1, 0, 2] = Some ir"
    and c: "\<forall>k<3. ic ! ([2, 0, 1::nat] ! k) = k"
    and r: "\<forall>k<3. [1, 0, 2::nat] ! (ir ! k) = k"
    by auto
  from c [rule_format, of 0] c [rule_format, of 1] c [rule_format, of 2] r [rule_format, of 0]
  have "ic ! 2 = 0" "ic ! 0 = 1" "ic ! 1 = 2" "[1, 0, 2::nat] ! (ir ! 0) = 0"
    by simp_all
  with run h1 h2 show ?thesis by blast
qed

lemma sum_assoc:
  fixes P :: "nat \<Rightarrow> 'a::comm_ring_1"
  shows "(\<Sum>j<n. (\<Sum>k<m. P k * M k j) * x j) = (\<Sum>k<m. P k * (\<Sum>j<n. M k j * x j))"
proof -
  have "(\<Sum>j<n. (\<Sum>k<m. P k * M k j) * x j) = (\<Sum>j<n. \<Sum>k<m. P k * (M k j * x j))"
    by (simp add: sum_distrib_right mult.assoc)
  also have "\<dots> = (\<Sum>k<m. \<Sum>j<n. P k * (M k j * x j))"
    by (rule sum.swap)
  also have "\<dots> = (\<Sum>k<m. P k * (\<Sum>j<n. M k j * x j))"
    by (simp add: sum_distrib_left)
  finally show ?thesis .
qed

lemma sum_delta:
  fixes g :: "nat \<Rightarrow> 'a::comm_ring_1"
  assumes "i < n"
  shows "(\<Sum>l<n. (if i = l then 1 else 0) * g l) = g i"
proof -
  have "(\<Sum>l<n. (if i = l then 1 else 0) * g l) = (\<Sum>l<n. if i = l then g l else 0)"
    by (rule sum.cong) simp_all
  also have "\<dots> = g i"
    using assms by simp
  finally show ?thesis .
qed

lemma sum_perm:
  fixes f :: "nat \<Rightarrow> 'a::comm_ring_1"
  assumes "is_permutation p" "length p = n"
  shows "(\<Sum>j<n. f (p ! j)) = (\<Sum>j<n. f j)"
proof (rule sum.reindex_bij_betw)
  have "inj_on ((!) p) {..<n}"
    using assms by (auto simp: inj_on_def is_permutation_def nth_eq_iff_index_eq)
  moreover have "(!) p ` {..<n} = {..<n}"
    using is_permutation_set [OF assms(1)] assms(2)
    by (auto simp: set_conv_nth)
  ultimately show "bij_betw ((!) p) {..<n} {..<n}"
    by (simp add: bij_betw_def)
qed

lemma permuted_system:
  fixes A :: "'a::comm_ring_1 mat"
  assumes rp: "is_permutation rp" "length rp = n" and cp: "is_permutation cp" "length cp = n"
    and ic: "\<forall>k<n. ic ! (cp ! k) = k"
    and sys: "\<forall>i<n. (\<Sum>j<n. A (rp ! i) (cp ! j) * xperm j) = b (rp ! i)"
  shows "\<forall>i<n. (\<Sum>j<n. A i j * xperm (ic ! j)) = b i"
proof (intro allI impI)
  fix i assume "i < n"
  then have "i \<in> set rp"
    by (simp add: is_permutation_set [OF rp(1)] rp(2))
  then obtain i' where i': "i' < n" "rp ! i' = i"
    using rp(2) by (auto simp: in_set_conv_nth)
  have "(\<Sum>j<n. A i j * xperm (ic ! j)) = (\<Sum>j<n. A i (cp ! j) * xperm (ic ! (cp ! j)))"
    by (rule sum_perm [OF cp, symmetric])
  also have "\<dots> = (\<Sum>j<n. A i (cp ! j) * xperm j)"
    by (rule sum.cong) (simp_all add: ic)
  also have "\<dots> = b i"
    using sys i' by auto
  finally show "(\<Sum>j<n. A i j * xperm (ic ! j)) = b i" .
qed

lemma qr_solve_permuted:
  fixes Q :: "'a::comm_ring_1 mat"
  assumes qr: "qr_factors n Q R M" and sol: "solves n lsolve R" and i: "i < n"
  shows "(\<Sum>j<n. M i j * lsolve R (mtimes n (mat_T Q) bp) j) = bp i"
proof -
  define z where "z = mtimes n (mat_T Q) bp"
  define xp where "xp = lsolve R z"
  have "(\<Sum>j<n. M i j * xp j) = (\<Sum>j<n. (\<Sum>k<n. Q i k * R k j) * xp j)"
    using qr i by (intro sum.cong refl) (simp add: qr_factors_def)
  also have "\<dots> = (\<Sum>k<n. Q i k * (\<Sum>j<n. R k j * xp j))"
    by (rule sum_assoc)
  also have "\<dots> = (\<Sum>k<n. Q i k * z k)"
    using sol by (intro sum.cong refl) (simp add: solves_def xp_def)
  also have "\<dots> = (\<Sum>k<n. Q i k * (\<Sum>l<n. Q l k * bp l))"
    by (simp add: z_def mtimes_def mat_T_def)
  also have "\<dots> = (\<Sum>l<n. (\<Sum>k<n. Q i k * Q l k) * bp l)"
    by (rule sum_assoc [symmetric])
  also have "\<dots> = (\<Sum>l<n. (if i = l then 1 else 0) * bp l)"
    using qr i by (intro sum.cong refl) (simp add: qr_factors_def)
  also have "\<dots> = bp i"
    by (rule sum_delta [OF i])
  finally show ?thesis
    by (simp add: xp_def z_def)
qed

lemma qr_solve_T_permuted:
  fixes Q :: "'a::comm_ring_1 mat"
  assumes qr: "qr_factors n Q R M" and sol: "solves n lsolve (mat_T R)" and j: "j < n"
  shows "(\<Sum>i<n. M i j * mtimes n Q (lsolve (mat_T R) bp) i) = bp j"
proof -
  define y where "y = lsolve (mat_T R) bp"
  define xp where "xp = mtimes n Q y"
  have "(\<Sum>i<n. M i j * xp i) = (\<Sum>i<n. (\<Sum>k<n. R k j * Q i k) * xp i)"
    using qr j by (intro sum.cong refl) (simp add: qr_factors_def mult.commute)
  also have "\<dots> = (\<Sum>k<n. R k j * (\<Sum>i<n. Q i k * xp i))"
    by (rule sum_assoc)
  also have "\<dots> = (\<Sum>k<n. R k j * y k)"
  proof (intro sum.cong refl)
    fix k assume "k \<in> {..<n}"
    then have k: "k < n" by simp
    have "(\<Sum>i<n. Q i k * xp i) = (\<Sum>i<n. Q i k * (\<Sum>m<n. Q i m * y m))"
      by (simp add: xp_def mtimes_def)
    also have "\<dots> = (\<Sum>i<n. \<Sum>m<n. Q i k * (Q i m * y m))"
      by (simp add: sum_distrib_left)
    also have "\<dots> = (\<Sum>m<n. \<Sum>i<n. Q i k * (Q i m * y m))"
      by (rule sum.swap)
    also have "\<dots> = (\<Sum>m<n. (\<Sum>i<n. Q i k * Q i m) * y m)"
      by (simp add: sum_distrib_right mult.assoc)
    also have "\<dots> = (\<Sum>m<n. (if k = m then 1 else 0) * y m)"
      using qr k by (intro sum.cong refl) (simp add: qr_factors_def)
    also have "\<dots> = y k"
      by (rule sum_delta [OF k])
    finally show "R k j * (\<Sum>i<n. Q i k * xp i) = R k j * y k"
      by simp
  qed
  also have "\<dots> = (\<Sum>k<n. mat_T R j k * y k)"
    by (simp add: mat_T_def)
  also have "\<dots> = bp j"
    using sol j by (simp add: solves_def y_def)
  finally show ?thesis
    by (simp add: xp_def y_def)
qed

lemma reset_functions_solve:
  fixes qr :: "'a::comm_ring_1 mat \<Rightarrow> 'a mat \<times> 'a mat"
  assumes "is_permutation (rowperm btf)" and "length (rowperm btf) = n"
    and "is_permutation (colperm btf)" and "length (colperm btf) = n"
  shows "\<exists>E. reset_functions qr lsolve n btf = Some E \<and>
           fact_fn E = (\<lambda>A. qr (mat_perm A (rowperm btf) (colperm btf))) \<and>
           (\<forall>A Q R b. qr_factors n Q R (mat_perm A (rowperm btf) (colperm btf)) \<longrightarrow>
              solves n lsolve R \<longrightarrow>
              (\<forall>i<n. (\<Sum>j<n. A i j * solv_fn E Q R b j) = b i)) \<and>
           (\<forall>A Q R b. qr_factors n Q R (mat_perm A (rowperm btf) (colperm btf)) \<longrightarrow>
              solves n lsolve (mat_T R) \<longrightarrow>
              (\<forall>j<n. (\<Sum>i<n. A i j * solvT_fn E Q R b i) = b j))"
proof -
  define rp where "rp = rowperm btf"
  define cp where "cp = colperm btf"
  note rpP = assms(1,2) [folded rp_def]
  note cpP = assms(3,4) [folded cp_def]
  from invert_perm_correct [OF cpP(1)] obtain ic where
    ic: "invert_perm cp = Some ic" "\<forall>k<n. ic ! (cp ! k) = k"
    using cpP(2) by auto
  from invert_perm_correct [OF rpP(1)] obtain ir where
    ir: "invert_perm rp = Some ir" "\<forall>k<n. ir ! (rp ! k) = k"
    using rpP(2) by auto
  define E where "E = \<lparr>fact_fn = (\<lambda>A. qr (mat_perm A rp cp)),
      solv_fn = (\<lambda>Q R b.
        let bperm = vec_perm b rp; xperm = lsolve R (mtimes n (mat_T Q) bperm)
        in vec_perm xperm ic),
      solvT_fn = (\<lambda>Q R b.
        let bperm = vec_perm b cp; xperm = mtimes n Q (lsolve (mat_T R) bperm)
        in vec_perm xperm ir)\<rparr>"
  have run: "reset_functions qr lsolve n btf = Some E"
    by (simp add: reset_functions_def ic(1) [unfolded cp_def] ir(1) [unfolded rp_def] E_def
        rp_def cp_def)
  have fact: "fact_fn E = (\<lambda>A. qr (mat_perm A rp cp))"
    by (simp add: E_def)
  have plain: "\<forall>i<n. (\<Sum>j<n. A i j * solv_fn E Q R b j) = b i"
    if qrM: "qr_factors n Q R (mat_perm A rp cp)" and sol: "solves n lsolve R"
    for A :: "'a mat" and Q R b
  proof -
    define xperm where "xperm = lsolve R (mtimes n (mat_T Q) (vec_perm b rp))"
    have x: "solv_fn E Q R b = (\<lambda>j. xperm (ic ! j))"
      by (simp add: E_def Let_def vec_perm_def xperm_def)
    have "\<forall>i<n. (\<Sum>j<n. A (rp ! i) (cp ! j) * xperm j) = b (rp ! i)"
      using qr_solve_permuted [OF qrM sol, of _ "vec_perm b rp"]
      by (simp add: mat_perm_def xperm_def vec_perm_def)
    from permuted_system [OF rpP cpP ic(2) this] show ?thesis
      by (simp add: x)
  qed
  have transposed: "\<forall>j<n. (\<Sum>i<n. A i j * solvT_fn E Q R b i) = b j"
    if qrM: "qr_factors n Q R (mat_perm A rp cp)" and sol: "solves n lsolve (mat_T R)"
    for A :: "'a mat" and Q R b
  proof -
    define xpermT where "xpermT = mtimes n Q (lsolve (mat_T R) (vec_perm b cp))"
    have xT: "solvT_fn E Q R b = (\<lambda>i. xpermT (ir ! i))"
      by (simp add: E_def Let_def vec_perm_def xpermT_def)
    have "\<forall>j<n. (\<Sum>i<n. mat_T A (cp ! j) (rp ! i) * xpermT i) = b (cp ! j)"
      using qr_solve_T_permuted [OF qrM sol, of _ "vec_perm b cp"]
      by (simp add: mat_perm_def xpermT_def vec_perm_def mat_T_def)
    from permuted_system [OF cpP rpP ir(2) this] show ?thesis
      by (simp add: xT mat_T_def)
  qed
  from run fact plain transposed show ?thesis
    unfolding rp_def cp_def by blast
qed

lemma buf_write_frame:
  "arg (mem (buf_write p vs s)) = arg (mem s)"
  "res (mem (buf_write p vs s)) = res (mem s)"
  "solve (mem (buf_write p vs s)) = solve (mem s)"
  "solveT (mem (buf_write p vs s)) = solveT (mem s)"
  "length (w (mem (buf_write p vs s))) = length (w (mem s))"
  by (cases "fst p"; simp add: buf_write_def length_overwrite)+

lemma fold_write_frame:
  "arg (mem (fold (\<lambda>j t. case rv ! j of None \<Rightarrow> t | Some p \<Rightarrow> buf_write p (outs ! j) t) js s)) = arg (mem s) \<and>
   res (mem (fold (\<lambda>j t. case rv ! j of None \<Rightarrow> t | Some p \<Rightarrow> buf_write p (outs ! j) t) js s)) = res (mem s) \<and>
   solve (mem (fold (\<lambda>j t. case rv ! j of None \<Rightarrow> t | Some p \<Rightarrow> buf_write p (outs ! j) t) js s)) = solve (mem s) \<and>
   solveT (mem (fold (\<lambda>j t. case rv ! j of None \<Rightarrow> t | Some p \<Rightarrow> buf_write p (outs ! j) t) js s)) = solveT (mem s) \<and>
   length (w (mem (fold (\<lambda>j t. case rv ! j of None \<Rightarrow> t | Some p \<Rightarrow> buf_write p (outs ! j) t) js s))) = length (w (mem s))"
  by (induction js arbitrary: s) (simp_all add: buf_write_frame split: option.split)

lemma fn_call_frame:
  "arg (mem (fn_call f av rv wp s)) = arg (mem s)"
  "res (mem (fn_call f av rv wp s)) = res (mem s)"
  "solve (mem (fn_call f av rv wp s)) = solve (mem s)"
  "solveT (mem (fn_call f av rv wp s)) = solveT (mem s)"
  "length (w (mem (fn_call f av rv wp s))) = length (w (mem s))"
  by (simp_all add: fn_call_def Let_def fold_write_frame buf_write_frame)

lemma factorize_frame:
  "length (arg (mem (SymbolicQr_factorize s))) = length (arg (mem s))"
  "length (res (mem (SymbolicQr_factorize s))) = length (res (mem s))"
  "solve (mem (SymbolicQr_factorize s)) = solve (mem s)"
  "solveT (mem (SymbolicQr_factorize s)) = solveT (mem s)"
  "length (w (mem (SymbolicQr_factorize s))) = length (w (mem s))"
  "nrow (mem (SymbolicQr_factorize s)) = nrow (mem s)"
  by (simp_all add: SymbolicQr_factorize_def Let_def fn_call_frame fn_call_nrow length_fill_n)


lemma length_nz_of: "length (nz_of sp M) = length (positions sp)"
  by (simp add: nz_of_def)

lemma nz_of_vec_simps:
  "length (nz_of_vec n v) = n"
  "j < n \<Longrightarrow> nz_of_vec n v ! j = v j"
  by (simp_all add: nz_of_vec_def)

lemma vec_of_nth: "i < length b \<Longrightarrow> vec_of b i = b ! i"
  by (simp add: vec_of_def)

lemma Function_of_simps:
  "n_in (Function_of sc name nin nout f) = length nin"
  "n_out (Function_of sc name nin nout f) = length nout"
  "nnz_in (Function_of sc name nin nout f) = nin"
  "nnz_out (Function_of sc name nin nout f) = nout"
  "sz_arg (Function_of sc name nin nout f) = length nin + extra_arg (sc name)"
  "sz_res (Function_of sc name nin nout f) = length nout + extra_res (sc name)"
  "sz_w (Function_of sc name nin nout f) = need_w (sc name)"
  "fn_eval (Function_of sc name nin nout f) = f"
  by (simp_all add: Function_of_def)

lemma solve_single:
  assumes ready: "solve_ready (selected tr (mem s)) s"
    and lx: "length (bufX s) = nrow (mem s)"
    and lo: "length (solve_rhs (selected tr (mem s)) (mem s) (bufX s)) = nrow (mem s)"
  shows "bufX (SymbolicQr_solve 1 tr s) = solve_rhs (selected tr (mem s)) (mem s) (bufX s)"
proof -
  define solv where "solv = selected tr (mem s)"
  define s0 where "s0 = solve_setup tr s"
  note st0 = solve_setup_effect [OF ready, folded solv_def s0_def]
  have sr: "solve_rhs solv (mem s0) = solve_rhs solv (mem s)"
    by (rule solve_rhs_cong) (simp_all add: st0)
  have run: "SymbolicQr_solve 1 tr s = solve_step solv 0 s0"
    by (simp add: solve_run solv_def s0_def Let_def)
  have x: "0 + nrow (mem s0) \<le> length (bufX s0)"
    by (simp add: st0 lx)
  have len: "length (solve_rhs solv (mem s0) (take (nrow (mem s0)) (drop 0 (bufX s0)))) = nrow (mem s0)"
    using lo [folded solv_def] by (simp add: sr st0 lx)
  from solve_step_effect(1) [OF st0(1) x len] lo [folded solv_def] show ?thesis
    by (simp add: run sr st0 lx solv_def [symmetric])
qed

text \<open>
  Claim C1, for the matrices that have a solution. Let the pattern be square with \<open>n\<close> rows,
  let the two permutations be bijections on \<open>[0, n)\<close>, let \<open>a\<close> hold the nonzeros of \<open>A\<close> and
  \<open>b\<close> a right-hand side of \<open>n\<close> entries. Let \<open>Q\<close>, \<open>R\<close> be what \<open>qr\<close> returns for the
  permuted matrix, such that the factors as they are stored and read back form a QR
  factorization of the permuted matrix with orthogonal \<open>Q\<close>, and let the linear solve be
  exact for the stored \<open>R\<close> and its transpose. Then \<open>reset\<close> succeeds, and on the memory it
  returns \<open>factorize\<close> stores the nonzeros of \<open>Q\<close> and \<open>R\<close>, \<open>solve\<close> with one right-hand
  side and \<open>tr = false\<close> leaves in the caller's buffer a vector \<open>x\<close> of \<open>n\<close> entries with
  \<open>A x = b\<close>, and with \<open>tr = true\<close> a vector \<open>x\<close> with \<open>A\<^sup>T x = b\<close>. The arithmetic is that of
  a commutative ring, hence exact; rounding in floating point is outside this statement.
\<close>

theorem SymbolicQr_factorize_solve:
  fixes qr :: "'a::comm_ring_1 mat \<Rightarrow> 'a mat \<times> 'a mat"
  assumes "sp_size1 s = n" and "sp_size2 s = n"
    and "is_permutation (rowperm btf)" and "length (rowperm btf) = n"
    and "is_permutation (colperm btf)" and "length (colperm btf) = n"
    and "length a = length (positions s)" and "length b = n"
    and "qr (mat_perm (mat_of s a) (rowperm btf) (colperm btf)) = (Q, R)"
    and "qr_factors n (stored sQ Q) (stored sR R)
           (mat_perm (mat_of s a) (rowperm btf) (colperm btf))"
    and "solves n lsolve (stored sR R)" and "solves n lsolve (mat_T (stored sR R))"
  shows "\<exists>m'. SymbolicQr_reset_sp qr lsolve sc btf sQ sR s m = Some m' \<and>
           q (mem (SymbolicQr_factorize \<lparr>mem = m', bufA = a, bufX = b\<rparr>)) = nz_of sQ Q \<and>
           r (mem (SymbolicQr_factorize \<lparr>mem = m', bufA = a, bufX = b\<rparr>)) = nz_of sR R \<and>
           length (bufX (SymbolicQr_solve 1 False
                     (SymbolicQr_factorize \<lparr>mem = m', bufA = a, bufX = b\<rparr>))) = n \<and>
           (\<forall>i<n. (\<Sum>j<n. mat_of s a i j *
                      bufX (SymbolicQr_solve 1 False
                        (SymbolicQr_factorize \<lparr>mem = m', bufA = a, bufX = b\<rparr>)) ! j) = b ! i) \<and>
           length (bufX (SymbolicQr_solve 1 True
                     (SymbolicQr_factorize \<lparr>mem = m', bufA = a, bufX = b\<rparr>))) = n \<and>
           (\<forall>j<n. (\<Sum>i<n. mat_of s a i j *
                      bufX (SymbolicQr_solve 1 True
                        (SymbolicQr_factorize \<lparr>mem = m', bufA = a, bufX = b\<rparr>)) ! i) = b ! j)"
proof -
  define A where "A = mat_of s a"
  define Qs where "Qs = stored sQ Q"
  define Rs where "Rs = stored sR R"
  note facs = assms(10) [folded A_def Qs_def Rs_def]
  note sol = assms(11) [folded Rs_def]
  note solT = assms(12) [folded Rs_def]
  from reset_functions_solve [OF assms(3-6), of qr lsolve] obtain E where
    E: "reset_functions qr lsolve n btf = Some E"
    and fact: "fact_fn E = (\<lambda>A. qr (mat_perm A (rowperm btf) (colperm btf)))"
    and p: "\<forall>A Q R b. qr_factors n Q R (mat_perm A (rowperm btf) (colperm btf)) \<longrightarrow>
              solves n lsolve R \<longrightarrow>
              (\<forall>i<n. (\<Sum>j<n. A i j * solv_fn E Q R b j) = b i)"
    and t: "\<forall>A Q R b. qr_factors n Q R (mat_perm A (rowperm btf) (colperm btf)) \<longrightarrow>
              solves n lsolve (mat_T R) \<longrightarrow>
              (\<forall>j<n. (\<Sum>i<n. A i j * solvT_fn E Q R b i) = b j)"
    by blast
  have plain: "\<forall>i<n. (\<Sum>j<n. A i j * solv_fn E Qs Rs b j) = b i" for b
    using p facs sol by blast
  have transposed: "\<forall>j<n. (\<Sum>i<n. A i j * solvT_fn E Qs Rs b i) = b j" for b
    using t facs solT by blast
  define F where "F = QR_fact sc s sQ sR E"
  define S where "S = QR_solv sc s sQ sR E"
  define T where "T = QR_solv_T sc s sQ sR E"
  define m' where "m' = SymbolicQr_reset n F S T m"
  define s0 where "s0 = \<lparr>mem = m', bufA = a, bufX = b\<rparr>"
  define s1 where "s1 = SymbolicQr_factorize s0"
  have run: "SymbolicQr_reset_sp qr lsolve sc btf sQ sR s m = Some m'"
    by (simp add: SymbolicQr_reset_sp_def assms(1) E m'_def F_def S_def T_def)
  have mf: "factorize m' = F" "solve m' = S" "solveT m' = T" "nrow m' = n"
    "length (q m') = nnz_out F ! 0" "length (r m') = nnz_out F ! 1"
    by (simp_all add: m'_def reset_fields)
  have Fs: "n_in F = 1" "n_out F = 2" "nnz_in F = [length (positions s)]"
    "nnz_out F = [length (positions sQ), length (positions sR)]"
    "1 \<le> sz_arg F" "2 \<le> sz_res F"
    by (simp_all add: F_def QR_fact_def Function_of_simps)
  have Ss: "n_in S = 3" "n_out S = 1"
    "nnz_in S = [length (positions sQ), length (positions sR), n]"
    "3 \<le> sz_arg S" "1 \<le> sz_res S"
    by (simp_all add: S_def QR_solv_def Function_of_simps assms(2))
  have Ts: "n_in T = 3" "n_out T = 1"
    "nnz_in T = [length (positions sQ), length (positions sR), n]"
    "3 \<le> sz_arg T" "1 \<le> sz_res T"
    by (simp_all add: T_def QR_solv_T_def Function_of_simps assms(2))
  have la: "3 \<le> length (arg m')" and lr: "2 \<le> length (res m')"
    and lwS: "n + sz_w S \<le> length (w m')" and lwT: "n + sz_w T \<le> length (w m')"
    using Fs(5,6) Ss(4,5) Ts(4,5) by (simp_all add: m'_def reset_sizes)
  have outs: "factorize_outputs s0 = [nz_of sQ Q, nz_of sR R]"
    using assms(9)
    by (simp add: factorize_outputs_def s0_def mf Fs(3) assms(7) F_def QR_fact_def
        Function_of_simps fact)
  have h: "n_in (factorize (mem s0)) = 1" "n_out (factorize (mem s0)) = 2"
    "1 \<le> length (arg (mem s0))" "2 \<le> length (res (mem s0))"
    using la lr by (simp_all add: s0_def mf Fs)
  note eff = factorize_effect [OF h, folded s1_def]
  have q0: "q (mem s0) = q m'" "r (mem s0) = r m'"
    by (simp_all add: s0_def)
  have q1: "q (mem s1) = nz_of sQ Q"
    by (simp add: eff(1) outs q0 overwrite_all length_nz_of mf Fs)
  have r1: "r (mem s1) = nz_of sR R"
    by (simp add: eff(2) outs q0 overwrite_all length_nz_of mf Fs)
  have x1: "bufX s1 = b"
    by (simp add: eff(4) s0_def)
  note fr = factorize_frame [of s0, folded s1_def]
  have m1: "solve (mem s1) = S" "solveT (mem s1) = T" "nrow (mem s1) = n"
    "3 \<le> length (arg (mem s1))" "1 \<le> length (res (mem s1))"
    "n + sz_w S \<le> length (w (mem s1))" "n + sz_w T \<le> length (w (mem s1))"
    using la lr lwS lwT by (simp_all add: fr s0_def mf)
  have rhsS: "solve_rhs S (mem s1) b = nz_of_vec n (solv_fn E Qs Rs (vec_of b))"
    by (simp add: solve_rhs_def q1 r1 Ss(3) length_nz_of S_def QR_solv_def Function_of_simps
        assms(2) Qs_def Rs_def stored_def)
  have rhsT: "solve_rhs T (mem s1) b = nz_of_vec n (solvT_fn E Qs Rs (vec_of b))"
    by (simp add: solve_rhs_def q1 r1 Ts(3) length_nz_of T_def QR_solv_T_def Function_of_simps
        assms(2) Qs_def Rs_def stored_def)
  have readyS: "solve_ready (selected False (mem s1)) s1"
    using m1 Ss by (simp add: solve_ready_def selected_def)
  have readyT: "solve_ready (selected True (mem s1)) s1"
    using m1 Ts by (simp add: solve_ready_def selected_def)
  have xS: "bufX (SymbolicQr_solve 1 False s1) = nz_of_vec n (solv_fn E Qs Rs (vec_of b))"
    using solve_single [OF readyS]
    by (simp add: selected_def m1 x1 assms(8) rhsS nz_of_vec_simps)
  have xT: "bufX (SymbolicQr_solve 1 True s1) = nz_of_vec n (solvT_fn E Qs Rs (vec_of b))"
    using solve_single [OF readyT]
    by (simp add: selected_def m1 x1 assms(8) rhsT nz_of_vec_simps)
  have cS: "\<forall>i<n. (\<Sum>j<n. A i j * bufX (SymbolicQr_solve 1 False s1) ! j) = b ! i"
    using plain [of "vec_of b"] by (simp add: xS nz_of_vec_simps vec_of_nth assms(8))
  have cT: "\<forall>j<n. (\<Sum>i<n. A i j * bufX (SymbolicQr_solve 1 True s1) ! i) = b ! j"
    using transposed [of "vec_of b"] by (simp add: xT nz_of_vec_simps vec_of_nth assms(8))
  have lS: "length (bufX (SymbolicQr_solve 1 False s1)) = n"
    and lT: "length (bufX (SymbolicQr_solve 1 True s1)) = n"
    by (simp_all add: xS xT nz_of_vec_simps)
  from run q1 r1 lS cS lT cT show ?thesis
    unfolding s1_def s0_def A_def by blast
qed


lemma dense22_positions: "positions dense22 = [(0, 0), (1, 0), (0, 1), (1, 1)]"
  by (simp add: positions_def dense22_def upt_rec numeral_2_eq_2)

lemma mat_of_dense22:
  "mat_of dense22 [a0, a1, a2, a3] =
     (\<lambda>i j. if i = 0 \<and> j = 0 then a0 else if i = 1 \<and> j = 0 then a1
            else if i = 0 \<and> j = 1 then a2 else if i = 1 \<and> j = 1 then a3 else 0)"
  by (auto simp: mat_of_def dense22_positions fun_eq_iff)

lemma nz_of_dense22: "nz_of dense22 M = [M 0 0, M 1 0, M 0 1, M 1 1]"
  by (simp add: nz_of_def dense22_positions)

lemma stored_dense22:
  "stored dense22 M =
     (\<lambda>i j. if i = 0 \<and> j = 0 then M 0 0 else if i = 1 \<and> j = 0 then M 1 0
            else if i = 0 \<and> j = 1 then M 0 1 else if i = 1 \<and> j = 1 then M 1 1 else 0)"
  by (auto simp: stored_def nz_of_dense22 mat_of_dense22 fun_eq_iff)

lemma sqrt_25: "sqrt 25 = 5"
proof -
  have "sqrt (5 ^ 2) = \<bar>5::real\<bar>"
    by (rule real_sqrt_abs)
  then show ?thesis by simp
qed

lemma gram_schmidt_instance:
  "gram_schmidt (mat_perm (mat_of dense22 [4, 3, 7, - 1]) [1, 0] [0, 1]) = (rot_Q, tri_R)"
  by (simp add: gram_schmidt_def mat_perm_def mat_of_dense22 Let_def sqrt_25 rot_Q_def tri_R_def
      fun_eq_iff)

lemma instance_qr_factors:
  "qr_factors 2 (stored dense22 rot_Q) (stored dense22 tri_R)
     (mat_perm (mat_of dense22 [4, 3, 7, - 1]) [1, 0] [0, 1])"
  by (simp add: qr_factors_def stored_dense22 mat_perm_def mat_of_dense22 rot_Q_def tri_R_def
      numeral_2_eq_2 less_Suc_eq)

lemma instance_solves:
  "solves 2 cramer (stored dense22 tri_R)"
  "solves 2 cramer (mat_T (stored dense22 tri_R))"
  by (simp_all add: solves_def cramer_def stored_dense22 mat_T_def tri_R_def
      numeral_2_eq_2 less_Suc_eq diff_divide_distrib)

lemma list_of_two: "length xs = 2 \<Longrightarrow> xs = [xs ! 0, xs ! 1]"
  by (cases xs; cases "tl xs") auto

theorem SymbolicQr_factorize_solve_witness:
  "sp_size1 dense22 = 2 \<and> sp_size2 dense22 = 2 \<and>
   is_permutation (rowperm swap_btf) \<and> length (rowperm swap_btf) = 2 \<and>
   is_permutation (colperm swap_btf) \<and> length (colperm swap_btf) = 2 \<and>
   length [4, 3, 7, - 1 :: real] = length (positions dense22) \<and> length [1, 7 :: real] = 2 \<and>
   gram_schmidt (mat_perm (mat_of dense22 [4, 3, 7, - 1]) (rowperm swap_btf) (colperm swap_btf)) =
     (rot_Q, tri_R) \<and>
   qr_factors 2 (stored dense22 rot_Q) (stored dense22 tri_R)
     (mat_perm (mat_of dense22 [4, 3, 7, - 1]) (rowperm swap_btf) (colperm swap_btf)) \<and>
   solves 2 cramer (stored dense22 tri_R) \<and> solves 2 cramer (mat_T (stored dense22 tri_R)) \<and>
   (\<exists>m'. SymbolicQr_reset_sp gram_schmidt cramer no_scratch swap_btf dense22 dense22 dense22
            fresh_mem = Some m' \<and>
      q (mem (SymbolicQr_factorize \<lparr>mem = m', bufA = [4, 3, 7, - 1], bufX = [1, 7]\<rparr>)) =
        [3 / 5, 4 / 5, - 4 / 5, 3 / 5] \<and>
      r (mem (SymbolicQr_factorize \<lparr>mem = m', bufA = [4, 3, 7, - 1], bufX = [1, 7]\<rparr>)) =
        [5, 0, 5, 5] \<and>
      bufX (SymbolicQr_solve 1 False
        (SymbolicQr_factorize \<lparr>mem = m', bufA = [4, 3, 7, - 1], bufX = [1, 7]\<rparr>)) = [2, - 1] \<and>
      bufX (SymbolicQr_solve 1 True
        (SymbolicQr_factorize \<lparr>mem = m', bufA = [4, 3, 7, - 1], bufX = [1, 7]\<rparr>)) =
        [22 / 25, - 21 / 25])"
proof -
  define a :: "real list" where "a = [4, 3, 7, - 1]"
  define b :: "real list" where "b = [1, 7]"
  have h1: "sp_size1 dense22 = 2" and h2: "sp_size2 dense22 = 2"
    by (simp_all add: dense22_def)
  have h3: "is_permutation (rowperm swap_btf)" and h4: "length (rowperm swap_btf) = 2"
    and h5: "is_permutation (colperm swap_btf)" and h6: "length (colperm swap_btf) = 2"
    by (simp_all add: swap_btf_def is_permutation_def)
  have h7: "length a = length (positions dense22)" and h8: "length b = 2"
    by (simp_all add: a_def b_def dense22_positions)
  have h9: "gram_schmidt (mat_perm (mat_of dense22 a) (rowperm swap_btf) (colperm swap_btf)) =
      (rot_Q, tri_R)"
    using gram_schmidt_instance by (simp add: swap_btf_def a_def)
  have h10: "qr_factors 2 (stored dense22 rot_Q) (stored dense22 tri_R)
      (mat_perm (mat_of dense22 a) (rowperm swap_btf) (colperm swap_btf))"
    using instance_qr_factors by (simp add: swap_btf_def a_def)
  note h11 = instance_solves(1) and h12 = instance_solves(2)
  from SymbolicQr_factorize_solve [where qr = gram_schmidt and lsolve = cramer
      and sc = no_scratch and m = fresh_mem and sQ = dense22 and sR = dense22,
      OF h1 h2 h3 h4 h5 h6 h7 h8 h9 h10 h11 h12]
  obtain m' where
    run: "SymbolicQr_reset_sp gram_schmidt cramer no_scratch swap_btf dense22 dense22 dense22
            fresh_mem = Some m'"
    and qv: "q (mem (SymbolicQr_factorize \<lparr>mem = m', bufA = a, bufX = b\<rparr>)) = nz_of dense22 rot_Q"
    and rv: "r (mem (SymbolicQr_factorize \<lparr>mem = m', bufA = a, bufX = b\<rparr>)) = nz_of dense22 tri_R"
    and lx: "length (bufX (SymbolicQr_solve 1 False
               (SymbolicQr_factorize \<lparr>mem = m', bufA = a, bufX = b\<rparr>))) = 2"
    and px: "\<forall>i<2. (\<Sum>j<2. mat_of dense22 a i j *
               bufX (SymbolicQr_solve 1 False
                 (SymbolicQr_factorize \<lparr>mem = m', bufA = a, bufX = b\<rparr>)) ! j) = b ! i"
    and ly: "length (bufX (SymbolicQr_solve 1 True
               (SymbolicQr_factorize \<lparr>mem = m', bufA = a, bufX = b\<rparr>))) = 2"
    and py: "\<forall>j<2. (\<Sum>i<2. mat_of dense22 a i j *
               bufX (SymbolicQr_solve 1 True
                 (SymbolicQr_factorize \<lparr>mem = m', bufA = a, bufX = b\<rparr>)) ! i) = b ! j"
    by blast
  define x where "x = bufX (SymbolicQr_solve 1 False
      (SymbolicQr_factorize \<lparr>mem = m', bufA = a, bufX = b\<rparr>))"
  define y where "y = bufX (SymbolicQr_solve 1 True
      (SymbolicQr_factorize \<lparr>mem = m', bufA = a, bufX = b\<rparr>))"
  from px [folded x_def, rule_format, of 0] px [folded x_def, rule_format, of 1]
  have ex: "4 * x ! 0 + 7 * x ! 1 = 1" "3 * x ! 0 - x ! 1 = 7"
    by (simp_all add: a_def b_def mat_of_dense22 numeral_2_eq_2)
  from py [folded y_def, rule_format, of 0] py [folded y_def, rule_format, of 1]
  have ey: "4 * y ! 0 + 3 * y ! 1 = 1" "7 * y ! 0 - y ! 1 = 7"
    by (simp_all add: a_def b_def mat_of_dense22 numeral_2_eq_2)
  from ex have "x ! 0 = 2" "x ! 1 = - 1"
    by linarith+
  with list_of_two [OF lx [folded x_def]] have xv: "x = [2, - 1]"
    by simp
  from ey have "y ! 0 = 22 / 25" "y ! 1 = - 21 / 25"
    by linarith+
  with list_of_two [OF ly [folded y_def]] have yv: "y = [22 / 25, - 21 / 25]"
    by simp
  have qv': "q (mem (SymbolicQr_factorize \<lparr>mem = m', bufA = a, bufX = b\<rparr>)) =
      [3 / 5, 4 / 5, - 4 / 5, 3 / 5]"
    by (simp add: qv nz_of_dense22 rot_Q_def)
  have rv': "r (mem (SymbolicQr_factorize \<lparr>mem = m', bufA = a, bufX = b\<rparr>)) = [5, 0, 5, 5]"
    by (simp add: rv nz_of_dense22 tri_R_def)
  from h1 h2 h3 h4 h5 h6 h7 h8 h9 h10 h11 h12 run qv' rv' xv yv show ?thesis
    unfolding x_def y_def a_def b_def by blast
qed

text \<open>
  The claim as stated, for every matrix with the pattern, fails: a singular matrix has
  right-hand sides for which no solution exists, and neither \<open>factorize\<close> nor \<open>solve\<close>
  reports it. For the matrix with rows \<open>(0, 0)\<close> and \<open>(0, 3)\<close> and the right-hand side
  \<open>(2, 6)\<close>, the first component of \<open>A x\<close> is \<open>0\<close> for the vector \<open>x\<close> that \<open>solve\<close> leaves
  in the buffer, as for every other vector, and not \<open>2\<close>.
\<close>

theorem SymbolicQr_solve_singular_counterexample:
  "\<exists>m'. SymbolicQr_reset_sp gram_schmidt cramer no_scratch swap_btf dense22 dense22 dense22
           fresh_mem = Some m' \<and>
     (\<Sum>j<2. mat_of dense22 [0, 0, 0, 3] 0 j *
        bufX (SymbolicQr_solve 1 False
          (SymbolicQr_factorize \<lparr>mem = m', bufA = [0, 0, 0, 3], bufX = [2, 6]\<rparr>)) ! j) = 0 \<and>
     \<not> (\<forall>i<2. (\<Sum>j<2. mat_of dense22 [0, 0, 0, 3] i j *
        bufX (SymbolicQr_solve 1 False
          (SymbolicQr_factorize \<lparr>mem = m', bufA = [0, 0, 0, 3], bufX = [2, 6]\<rparr>)) ! j) =
        [2, 6 :: real] ! i)"
proof -
  have "invert_perm [0, 1] = Some [0, 1]" "invert_perm [1, 0] = Some [1, 0]"
    by (simp_all add: invert_perm_def invert_step_def upt_rec numeral_2_eq_2)
  then obtain m' where run:
    "SymbolicQr_reset_sp gram_schmidt cramer no_scratch swap_btf dense22 dense22 dense22
       fresh_mem = Some m'"
    by (simp add: SymbolicQr_reset_sp_def reset_functions_def swap_btf_def)
  define x where "x = bufX (SymbolicQr_solve 1 False
      (SymbolicQr_factorize \<lparr>mem = m', bufA = [0, 0, 0, 3], bufX = [2, 6]\<rparr>))"
  have z: "(\<Sum>j<2. mat_of dense22 [0, 0, 0, 3] 0 j * x ! j) = 0"
    by (simp add: mat_of_dense22 numeral_2_eq_2)
  then have "\<not> (\<forall>i<2. (\<Sum>j<2. mat_of dense22 [0, 0, 0, 3] i j * x ! j) = [2, 6 :: real] ! i)"
    by (auto intro!: exI [of _ 0])
  with run z show ?thesis
    unfolding x_def by blast
qed

section \<open>Tiled replication and tiled sum\<close>

lemma block_of_copies:
  "i < m \<Longrightarrow> take (length x) (drop (i * length x) (concat (replicate m x))) = x"
proof (induction m arbitrary: i)
  case 0
  then show ?case by simp
next
  case (Suc m)
  show ?case
  proof (cases i)
    case 0
    then show ?thesis by simp
  next
    case (Suc j)
    with Suc.prems have "j < m" by simp
    from Suc.IH [OF this] Suc show ?thesis by simp
  qed
qed

lemma sum_of_copies:
  fixes x :: "'a::comm_ring_1 list"
  assumes "k \<le> m"
  shows "fold (\<lambda>i acc. map2 (+) acc (take (length x) (drop (i * length x) (concat (replicate m x)))))
           [0..<k] (replicate (length x) 0) = map (\<lambda>v. of_nat k * v) x"
  using assms
proof (induction k)
  case 0
  show ?case by (simp add: map_replicate_const)
next
  case (Suc k)
  then have km: "k < m" by simp
  have "map2 (+) (map (\<lambda>v. of_nat k * v) x) x = map (\<lambda>v. of_nat (Suc k) * v) x"
    by (induction x) (simp_all add: algebra_simps)
  with Suc.IH km show ?case
    by (simp add: block_of_copies)
qed

text \<open>
  Claim C6. For every buffer \<open>X\<close> and every \<open>n \<ge> 1\<close>: \<open>HorzRepmat\<close> with parameter \<open>n\<close>
  writes \<open>n\<close> contiguous copies of the nonzeros of \<open>X\<close>, and \<open>HorzRepsum\<close> with the same
  \<open>n\<close> and the sum as reduction, applied to that result, yields \<open>n X\<close> entry by entry.
  The arithmetic is that of a commutative ring, hence exact.
\<close>

theorem HorzRepsum_of_HorzRepmat:
  fixes x :: "'a::comm_ring_1 list"
  assumes "1 \<le> n"
  shows "HorzRepmat_evalGen \<lparr>repmat_n = n\<rparr> x = concat (replicate (nat n) x) \<and>
         HorzRepsum_eval \<lparr>repsum_n = n\<rparr> (length x) (HorzRepmat_evalGen \<lparr>repmat_n = n\<rparr> x) =
           map (\<lambda>v. of_int n * v) x"
proof -
  from assms have n: "of_nat (nat n) = (of_int n :: 'a)"
    by simp
  have "HorzRepsum_eval \<lparr>repsum_n = n\<rparr> (length x) (HorzRepmat_evalGen \<lparr>repmat_n = n\<rparr> x) =
           map (\<lambda>v. of_int n * v) x"
    using sum_of_copies [of "nat n" "nat n" x]
    by (simp add: HorzRepsum_eval_def HorzRepsum_evalGen_def HorzRepmat_evalGen_def n)
  then show ?thesis
    by (simp add: HorzRepmat_evalGen_def)
qed

theorem HorzRepsum_of_HorzRepmat_witness:
  "(1::int) \<le> 3 \<and>
   HorzRepmat_evalGen \<lparr>repmat_n = 3\<rparr> [1, 1, 1, 1 :: int] = [1, 1, 1, 1, 1, 1, 1, 1, 1, 1, 1, 1] \<and>
   HorzRepsum_eval \<lparr>repsum_n = 3\<rparr> (length [1, 1, 1, 1 :: int])
     (HorzRepmat_evalGen \<lparr>repmat_n = 3\<rparr> [1, 1, 1, 1 :: int]) = [3, 3, 3, 3]"
proof -
  have h: "(1::int) \<le> 3" by simp
  note t = HorzRepsum_of_HorzRepmat [OF h, of "[1, 1, 1, 1 :: int]"]
  have a: "HorzRepmat_evalGen \<lparr>repmat_n = 3\<rparr> [1, 1, 1, 1 :: int] =
      [1, 1, 1, 1, 1, 1, 1, 1, 1, 1, 1, 1]"
    using t [THEN conjunct1] by (simp add: numeral_3_eq_3)
  have b: "HorzRepsum_eval \<lparr>repsum_n = 3\<rparr> (length [1, 1, 1, 1 :: int])
      (HorzRepmat_evalGen \<lparr>repmat_n = 3\<rparr> [1, 1, 1, 1 :: int]) = [3, 3, 3, 3]"
    using t [THEN conjunct2] by simp
  from h a b show ?thesis by blast
qed

section \<open>Rank-1 update\<close>





section \<open>The iteration callback of the WORHP interface\<close>

lemma eval_block_frame:
  "firstIteration (eval_block lib a s) = firstIteration s"
  "callback_evals (eval_block lib a s) = callback_evals s"
  by (simp_all add: eval_block_def)

lemma loop_body_flag:
  assumes "firstIteration s"
  shows "firstIteration (loop_body lib fcallback s) \<and>
         callback_evals (loop_body lib fcallback s) = callback_evals s"
  using assms
  by (simp add: loop_body_def iter_output_block_def Let_def eval_block_frame)

lemma reverse_communication_flag:
  assumes "firstIteration s" "reverse_communication lib fcallback fuel s = Some s'"
  shows "firstIteration s' \<and> callback_evals s' = callback_evals s"
  using assms
proof (induction fuel arbitrary: s)
  case 0
  then show ?case by (simp split: if_splits)
next
  case (Suc fuel)
  show ?case
  proof (cases "running lib s")
    case True
    with Suc.prems have run: "reverse_communication lib fcallback fuel (loop_body lib fcallback s) = Some s'"
      by simp
    from loop_body_flag [OF Suc.prems(1), of lib fcallback]
    have "firstIteration (loop_body lib fcallback s)"
      and same: "callback_evals (loop_body lib fcallback s) = callback_evals s"
      by simp_all
    from Suc.IH [OF this(1) run] same show ?thesis by simp
  next
    case False
    with Suc.prems show ?thesis by simp
  qed
qed

lemma callback_never_evaluated:
  "case WorhpInterface_solve_loop lib fcallback fuel st of
     None \<Rightarrow> True
   | Some s' \<Rightarrow> callback_evals s' = 0"
proof (cases "WorhpInterface_solve_loop lib fcallback fuel st")
  case None
  then show ?thesis by simp
next
  case (Some s')
  from reverse_communication_flag [OF _ Some [unfolded WorhpInterface_solve_loop_def]]
  show ?thesis by (simp add: Some)
qed

text \<open>
  Claim C8 does not hold for the code. \<open>firstIteration\<close> starts as true and the only
  assignment to it sets it to true again, so the guard \<open>!firstIteration\<close> in front of the
  callback never holds: the callback Function is not evaluated at any iteration output,
  whatever it would return. In the instance the callback asks for termination, three
  iteration outputs pass, and the loop ends with WORHP's own status and no evaluation of
  the callback.
\<close>

theorem WorhpInterface_solve_ignores_callback:
  "WorhpInterface_solve_loop counting_lib (Some (\<lambda>st. 1)) 5 (0, 0) =
     Some \<lparr>worhp = (1000, 3), firstIteration = True, callback_evals = 0\<rparr>"
  by (simp add: WorhpInterface_solve_loop_def running_def counting_lib_def loop_body_def
      iter_output_block_def eval_block_def Let_def numeral_eq_Suc)

section \<open>Rejected options\<close>

















end
